theory Spec2Isabelle
  imports Complex_Main
begin

section \<open>Python values shared by the whole model\<close>

text \<open>
  A Python \<open>str\<close> is a sequence of Unicode code points, and \<open>len\<close>, slicing and
  \<open>ord\<close> count code points. A string is therefore a list of code points, each a natural
  number; \<open>py\<close> writes such a string from a literal.
\<close>

type_synonym pystr = "nat list"

definition py :: "string \<Rightarrow> pystr" where
  "py s = map of_char s"

text \<open>
  An exception is a value: its class and the text \<open>str(e)\<close> gives. The classes are the
  ones the scripts raise or catch by name; \<open>LibraryError\<close> stands for every exception
  class of the client libraries (all of them subclasses of \<open>Exception\<close>).
\<close>

datatype exn_class =
    IndexError
  | ValueError
  | RuntimeError
  | DuplicateRecordError
  | PlainException
  | LibraryError pystr

datatype exn = Exn (cls: exn_class) (msg: pystr)

text \<open>\<open>xs[i]\<close> for a non-negative index: out of range raises \<open>IndexError\<close>.\<close>

definition py_index :: "'a list \<Rightarrow> nat \<Rightarrow> exn + 'a" where
  "py_index xs i =
     (if i < length xs then Inr (xs ! i)
      else Inl (Exn IndexError (py ''list index out of range'')))"

text \<open>
  The Unicode character database is not part of the repository. The two tables the
  scripts consult through \<open>str.isdigit\<close> and \<open>int\<close> are parameters: \<open>isdigit\<close> is the
  predicate of \<open>str.isdigit\<close>, and \<open>decimal\<close> gives the value of a code point that \<open>int\<close>
  accepts as a decimal digit (\<open>None\<close> for one it rejects, such as a superscript two).
  With them comes the interpreter's limit on the number of digits \<open>int\<close> converts,
  \<open>sys.get_int_max_str_digits()\<close>: 4300 by default since CPython 3.11, and 0 where
  there is no limit (an older interpreter, or the limit switched off).
\<close>

record unicode_db =
  isdigit :: "nat \<Rightarrow> bool"
  decimal :: "nat \<Rightarrow> nat option"
  max_str_digits :: nat

definition ascii_db :: unicode_db where
  "ascii_db =
     \<lparr> isdigit = (\<lambda>c. 48 \<le> c \<and> c \<le> 57),
       decimal = (\<lambda>c. if 48 \<le> c \<and> c \<le> 57 then Some (c - 48) else None),
       max_str_digits = 4300 \<rparr>"

fun decimal_values :: "unicode_db \<Rightarrow> pystr \<Rightarrow> nat list option" where
  "decimal_values db [] = Some []"
| "decimal_values db (c # cs) =
     (case decimal db c of
        None \<Rightarrow> None
      | Some d \<Rightarrow> (case decimal_values db cs of None \<Rightarrow> None | Some ds \<Rightarrow> Some (d # ds)))"

text \<open>
  \<open>int(s)\<close> on a string of digit characters: the empty string and a character that is
  no decimal digit raise \<open>ValueError\<close>, and so does a string of more digits than the
  limit; otherwise the digits are read in base ten.
\<close>

definition py_int :: "unicode_db \<Rightarrow> pystr \<Rightarrow> exn + int" where
  "py_int db s =
     (if s = [] then Inl (Exn ValueError (py ''invalid literal for int()''))
      else case decimal_values db s of
             None \<Rightarrow> Inl (Exn ValueError (py ''invalid literal for int()''))
           | Some ds \<Rightarrow>
               if max_str_digits db \<noteq> 0 \<and> length s > max_str_digits db
               then Inl (Exn ValueError (py ''Exceeds the limit for integer string conversion''))
               else Inr (int (foldl (\<lambda>acc d. 10 * acc + d) 0 ds)))"

fun digits10 :: "nat \<Rightarrow> pystr" where
  "digits10 n = (if n < 10 then [48 + n] else digits10 (n div 10) @ [48 + n mod 10])"

definition py_str_of_int :: "int \<Rightarrow> pystr" where
  "py_str_of_int n = (if n < 0 then 45 # digits10 (nat (- n)) else digits10 (nat n))"

section \<open>Storage keys\<close>

text \<open>
  \<open>year_component\<close> is an \<open>int\<close> when the period label holds digits and a \<open>str\<close>
  otherwise; the f-string formats either.
\<close>

datatype year_component = YearInt int | YearStr pystr

fun format_year :: "year_component \<Rightarrow> pystr" where
  "format_year (YearInt n) = py_str_of_int n"
| "format_year (YearStr s) = s"

text \<open>The body of the \<open>try\<close>: \<open>int(''.join(filter(str.isdigit, path_parts[1])))\<close>.\<close>

definition year_digits :: "unicode_db \<Rightarrow> pystr list \<Rightarrow> exn + int" where
  "year_digits db path_parts =
     (case py_index path_parts 1 of
        Inl e \<Rightarrow> Inl e
      | Inr period \<Rightarrow> py_int db (filter (isdigit db) period))"

text \<open>The \<open>try\<close> with its handler \<open>except (ValueError, IndexError)\<close>.\<close>

definition year_of :: "unicode_db \<Rightarrow> pystr list \<Rightarrow> exn + year_component" where
  "year_of db path_parts =
     (case year_digits db path_parts of
        Inr n \<Rightarrow> Inr (YearInt n)
      | Inl e \<Rightarrow>
          if cls e = ValueError \<or> cls e = IndexError
          then Inr (YearStr (if length path_parts > 1 then path_parts ! 1 else py ''unknown''))
          else Inl e)"

definition build_s3_key :: "unicode_db \<Rightarrow> pystr list \<Rightarrow> pystr \<Rightarrow> exn + pystr" where
  "build_s3_key db path_parts filename =
     (case year_of db path_parts of
        Inl e \<Rightarrow> Inl e
      | Inr year \<Rightarrow>
          (case py_index path_parts 0 of
             Inl e \<Rightarrow> Inl e
           | Inr branch \<Rightarrow>
               (let subject = (if length path_parts > 2 then path_parts ! 2 else py ''unknown'');
                    resource_type = (if length path_parts > 3 then path_parts ! 3 else py ''Notes'')
                in Inr (branch @ py ''/'' @ format_year year @ py ''/'' @ subject @ py ''/''
                        @ resource_type @ py ''/'' @ filename))))"

section \<open>Confidence of an OCR response\<close>

text \<open>
  The response of the OCR service for an image: the full text and, page by page and
  block by block, the recognised symbols with the confidence the service reports for
  each. The scores are floats in the source; the model takes them as real numbers, so
  sums and quotients are exact.
\<close>

record ocr_symbol =
  confidence :: real

record ocr_word =
  symbols :: "ocr_symbol list"

record ocr_paragraph =
  words :: "ocr_word list"

record ocr_block =
  paragraphs :: "ocr_paragraph list"

record ocr_page =
  blocks :: "ocr_block list"

record full_text_annotation =
  annotation_text :: pystr
  pages :: "ocr_page list"

text \<open>
  The five nested \<open>for\<close> loops that append every positive symbol confidence to
  \<open>confidence_scores\<close>; the list built so far is the accumulator.
\<close>

fun scores_of_symbols :: "real list \<Rightarrow> ocr_symbol list \<Rightarrow> real list" where
  "scores_of_symbols confidence_scores [] = confidence_scores"
| "scores_of_symbols confidence_scores (s # ss) =
     scores_of_symbols
       (if confidence s > 0 then confidence_scores @ [confidence s] else confidence_scores) ss"

fun scores_of_words :: "real list \<Rightarrow> ocr_word list \<Rightarrow> real list" where
  "scores_of_words confidence_scores [] = confidence_scores"
| "scores_of_words confidence_scores (w # ws) =
     scores_of_words (scores_of_symbols confidence_scores (symbols w)) ws"

fun scores_of_paragraphs :: "real list \<Rightarrow> ocr_paragraph list \<Rightarrow> real list" where
  "scores_of_paragraphs confidence_scores [] = confidence_scores"
| "scores_of_paragraphs confidence_scores (p # ps) =
     scores_of_paragraphs (scores_of_words confidence_scores (words p)) ps"

fun scores_of_blocks :: "real list \<Rightarrow> ocr_block list \<Rightarrow> real list" where
  "scores_of_blocks confidence_scores [] = confidence_scores"
| "scores_of_blocks confidence_scores (b # bs) =
     scores_of_blocks (scores_of_paragraphs confidence_scores (paragraphs b)) bs"

fun scores_of_pages :: "real list \<Rightarrow> ocr_page list \<Rightarrow> real list" where
  "scores_of_pages confidence_scores [] = confidence_scores"
| "scores_of_pages confidence_scores (p # ps) =
     scores_of_pages (scores_of_blocks confidence_scores (blocks p)) ps"

text \<open>\<open>sum(xs)\<close> adds from the left, starting at 0.\<close>

definition py_sum :: "real list \<Rightarrow> real" where
  "py_sum xs = foldl (+) 0 xs"

text \<open>
  \<open>avg_confidence = sum(confidence_scores) / len(confidence_scores) if confidence_scores else 0\<close>
\<close>

definition avg_confidence :: "full_text_annotation \<Rightarrow> real" where
  "avg_confidence annotation =
     (let confidence_scores = scores_of_pages [] (pages annotation)
      in if confidence_scores \<noteq> [] then py_sum confidence_scores / real (length confidence_scores)
         else 0)"

text \<open>
  What the specification speaks of: the sequence of all per-symbol scores of a response,
  in reading order, and the arithmetic mean of the positive ones.
\<close>

definition symbol_scores :: "full_text_annotation \<Rightarrow> real list" where
  "symbol_scores annotation =
     concat (map (\<lambda>pg. concat (map (\<lambda>b. concat (map (\<lambda>p. concat (map (\<lambda>w.
       map confidence (symbols w)) (words p))) (paragraphs b))) (blocks pg))) (pages annotation))"

definition mean_of_positive :: "real list \<Rightarrow> real" where
  "mean_of_positive scores =
     (let positive = filter (\<lambda>c. c > 0) scores
      in if positive = [] then 0 else sum_list positive / real (length positive))"

section \<open>The retry executor\<close>

text \<open>
  \<open>retry_loop\<close> calls an operation of the outside world. The operation is a function of
  the state of that world: it returns or raises, and leaves a new state. What the loop
  does that can be observed from outside (an invocation of the operation, a completed
  \<open>time.sleep\<close>) is recorded in a trace, in the order it happens. The delays are floats
  in the source; the model only multiplies them, with the multiplication of whatever
  type they have.

  \<open>time.sleep\<close> belongs to the interpreter, not to the scripts, and it does not accept
  every delay: CPython raises \<open>ValueError\<close> for a negative delay or a NaN and
  \<open>OverflowError\<close> for one too large for its clock. It is a parameter of the model, a
  function that for a delay gives \<open>None\<close> when the call returns and \<open>Some err\<close> when it
  raises \<open>err\<close>.
\<close>

datatype 'd retry_event = Invoked | Slept 'd

text \<open>
  One round of \<open>while True\<close>, with the loop variables \<open>attempt\<close> and \<open>delay\<close>.
  \<open>allowed\<close> is the test \<open>except allowed_exceptions\<close> makes on a raised exception.
  The result is \<open>Inr (Some v)\<close> when the operation returned \<open>v\<close>, \<open>Inr None\<close> for the
  \<open>return None\<close> of \<open>swallow\<close>, and \<open>Inl e\<close> for an exception that leaves the loop.
  \<open>time.sleep(delay)\<close> is called in the handler, outside the \<open>try\<close>: what it raises
  leaves the loop, whatever \<open>swallow\<close> is.
\<close>

function retry_from ::
  "('d \<Rightarrow> exn option) \<Rightarrow> ('s \<Rightarrow> (exn + 'a) \<times> 's) \<Rightarrow> int \<Rightarrow> 'd::times \<Rightarrow> (exn \<Rightarrow> bool) \<Rightarrow> bool
     \<Rightarrow> int \<Rightarrow> 'd \<Rightarrow> 's \<Rightarrow> (exn + 'a option) \<times> 's \<times> 'd retry_event list" where
  "retry_from time_sleep func max_retries backoff allowed swallow attempt delay s =
     (case func s of
        (Inr v, s') \<Rightarrow> (Inr (Some v), s', [Invoked])
      | (Inl e, s') \<Rightarrow>
          if allowed e then
            if attempt + 1 > max_retries
            then (if swallow then Inr None else Inl e, s', [Invoked])
            else (case time_sleep delay of
                    Some err \<Rightarrow> (Inl err, s', [Invoked])
                  | None \<Rightarrow>
                      (case retry_from time_sleep func max_retries backoff allowed swallow
                              (attempt + 1) (delay * backoff) s' of
                         (r, s'', trace) \<Rightarrow> (r, s'', Invoked # Slept delay # trace)))
          else (Inl e, s', [Invoked]))"
  by pat_completeness auto
termination
  by (relation "measure (\<lambda>(time_sleep, func, max_retries, backoff, allowed, swallow, attempt, delay, s).
        nat (max_retries - attempt))") auto

declare retry_from.simps [simp del]

definition retry_loop ::
  "('d \<Rightarrow> exn option) \<Rightarrow> ('s \<Rightarrow> (exn + 'a) \<times> 's) \<Rightarrow> int \<Rightarrow> 'd::times \<Rightarrow> 'd \<Rightarrow> (exn \<Rightarrow> bool) \<Rightarrow> bool
     \<Rightarrow> 's \<Rightarrow> (exn + 'a option) \<times> 's \<times> 'd retry_event list" where
  "retry_loop time_sleep func max_retries initial_delay backoff allowed swallow s =
     retry_from time_sleep func max_retries backoff allowed swallow 0 initial_delay s"

text \<open>
  Words for the statements about the loop: the state of the world after \<open>i\<close>
  invocations, the outcome of invocation number \<open>i\<close> (counted from 0), the delay of
  sleep number \<open>i\<close>, and the number of invocations in a trace.
\<close>

definition world_after :: "('s \<Rightarrow> (exn + 'a) \<times> 's) \<Rightarrow> nat \<Rightarrow> 's \<Rightarrow> 's" where
  "world_after func i s = ((\<lambda>w. snd (func w)) ^^ i) s"

definition outcome_at :: "('s \<Rightarrow> (exn + 'a) \<times> 's) \<Rightarrow> nat \<Rightarrow> 's \<Rightarrow> exn + 'a" where
  "outcome_at func i s = fst (func (world_after func i s))"

definition delay_at :: "'d::times \<Rightarrow> 'd \<Rightarrow> nat \<Rightarrow> 'd" where
  "delay_at initial_delay backoff i = ((\<lambda>d. d * backoff) ^^ i) initial_delay"

definition invocations :: "'d retry_event list \<Rightarrow> nat" where
  "invocations trace = length (filter (\<lambda>ev. ev = Invoked) trace)"

fun sleeps :: "'d retry_event list \<Rightarrow> 'd list" where
  "sleeps [] = []"
| "sleeps (Invoked # trace) = sleeps trace"
| "sleeps (Slept d # trace) = d # sleeps trace"

text \<open>The trace of \<open>k\<close> failed attempts, each followed by its sleep.\<close>

definition retried :: "'d::times \<Rightarrow> 'd \<Rightarrow> nat \<Rightarrow> 'd retry_event list" where
  "retried initial_delay backoff k =
     concat (map (\<lambda>i. [Invoked, Slept (delay_at initial_delay backoff i)]) [0..<k])"

text \<open>An operation that times out at every call and counts its calls in the state.\<close>

definition always_fails :: "nat \<Rightarrow> (exn + unit) \<times> nat" where
  "always_fails calls = (Inl (Exn PlainException (py ''timeout'')), Suc calls)"

text \<open>A clock that refuses a negative delay, as CPython does, and accepts the others.\<close>

definition sleep_nonneg :: "real \<Rightarrow> exn option" where
  "sleep_nonneg delay =
     (if delay < 0 then Some (Exn ValueError (py ''sleep length must be non-negative''))
      else None)"

section \<open>The text normalizer\<close>

text \<open>
  The code points \<open>str.isspace\<close> accepts, which are the ones \<open>str.split()\<close> and
  \<open>str.strip()\<close> treat as whitespace: the ASCII controls 9 to 13 and 28 to 31, the
  space, and the Unicode separators.
\<close>

definition py_isspace :: "nat \<Rightarrow> bool" where
  "py_isspace c =
     ((9 \<le> c \<and> c \<le> 13) \<or> (28 \<le> c \<and> c \<le> 32) \<or> c = 133 \<or> c = 160 \<or> c = 5760
      \<or> (8192 \<le> c \<and> c \<le> 8202) \<or> c = 8232 \<or> c = 8233 \<or> c = 8239 \<or> c = 8287
      \<or> c = 12288)"

text \<open>
  \<open>s.split()\<close>: skip whitespace, take the characters up to the next whitespace as a
  word, and go on with the rest; no word is empty.
\<close>

function py_split :: "pystr \<Rightarrow> pystr list" where
  "py_split s =
     (case dropWhile py_isspace s of
        [] \<Rightarrow> []
      | c # cs \<Rightarrow>
          takeWhile (\<lambda>x. \<not> py_isspace x) (c # cs)
            # py_split (dropWhile (\<lambda>x. \<not> py_isspace x) (c # cs)))"
  by pat_completeness auto
termination
proof (relation "measure length", simp)
  fix s :: pystr and c cs
  assume d: "dropWhile py_isspace s = c # cs"
  then have "\<not> py_isspace c"
    using hd_dropWhile [of py_isspace s] by simp
  then have "length (dropWhile (\<lambda>x. \<not> py_isspace x) (c # cs)) \<le> length cs"
    by (simp add: length_dropWhile_le)
  moreover have "length (c # cs) \<le> length s"
    using length_dropWhile_le [of py_isspace s] d by simp
  ultimately show "(dropWhile (\<lambda>x. \<not> py_isspace x) (c # cs), s) \<in> measure length"
    by simp
qed

declare py_split.simps [simp del]

text \<open>\<open>sep.join(words)\<close>\<close>

fun py_join :: "pystr \<Rightarrow> pystr list \<Rightarrow> pystr" where
  "py_join sep [] = []"
| "py_join sep [w] = w"
| "py_join sep (w # v # ws) = w @ sep @ py_join sep (v # ws)"

text \<open>\<open>s.strip()\<close>\<close>

definition py_strip :: "pystr \<Rightarrow> pystr" where
  "py_strip s = rev (dropWhile py_isspace (rev (dropWhile py_isspace s)))"

text \<open>\<open>s.startswith(sub)\<close> and \<open>sub in s\<close>\<close>

definition py_startswith :: "pystr \<Rightarrow> pystr \<Rightarrow> bool" where
  "py_startswith s sub = (take (length sub) s = sub)"

fun py_contains :: "pystr \<Rightarrow> pystr \<Rightarrow> bool" where
  "py_contains sub [] = (sub = [])"
| "py_contains sub (c # cs) = (py_startswith (c # cs) sub \<or> py_contains sub cs)"

text \<open>
  \<open>s.replace(old, new)\<close>: the occurrences of \<open>old\<close> are replaced from the left, and the
  search goes on after each replaced occurrence. For an empty \<open>old\<close>, \<open>new\<close> is put
  before every character and at the end.
\<close>

function py_replace :: "pystr \<Rightarrow> pystr \<Rightarrow> pystr \<Rightarrow> pystr" where
  "py_replace old new s =
     (if old = [] then new @ concat (map (\<lambda>c. c # new) s)
      else if s = [] then []
      else if py_startswith s old then new @ py_replace old new (drop (length old) s)
      else hd s # py_replace old new (tl s))"
  by pat_completeness auto
termination
  by (relation "measure (\<lambda>(old, new, s). length s)") auto

declare py_replace.simps [simp del]

lemma py_startswith_length: "py_startswith s old \<Longrightarrow> length old \<le> length s"
proof -
  assume "py_startswith s old"
  then have "length (take (length old) s) = length old"
    unfolding py_startswith_def by (rule arg_cong)
  then show ?thesis
    by (auto simp: min_def split: if_splits)
qed

lemma py_replace_Nil: "old \<noteq> [] \<Longrightarrow> py_replace old new [] = []"
  using py_replace.simps [of old new "[]"] by simp

lemma py_replace_match:
  "old \<noteq> [] \<Longrightarrow> s \<noteq> [] \<Longrightarrow> py_startswith s old \<Longrightarrow>
     py_replace old new s = new @ py_replace old new (drop (length old) s)"
  using py_replace.simps [of old new s] by simp

lemma py_replace_skip:
  "old \<noteq> [] \<Longrightarrow> \<not> py_startswith (c # cs) old \<Longrightarrow>
     py_replace old new (c # cs) = c # py_replace old new cs"
  using py_replace.simps [of old new "c # cs"] by simp

lemma py_replace_length_le:
  assumes "old \<noteq> []" and "length new \<le> length old"
  shows "length (py_replace old new s) \<le> length s"
proof (induction "length s" arbitrary: s rule: less_induct)
  case less
  show ?case
  proof (cases s)
    case Nil
    then show ?thesis using assms(1) by (simp add: py_replace_Nil)
  next
    case (Cons c cs)
    show ?thesis
    proof (cases "py_startswith s old")
      case True
      have le: "length old \<le> length s"
        using True by (rule py_startswith_length)
      have pos: "0 < length old"
        using assms(1) by simp
      have "length (drop (length old) s) < length s"
        using le pos Cons by simp
      then have "length (py_replace old new (drop (length old) s)) \<le> length (drop (length old) s)"
        by (rule less)
      then have "length (new @ py_replace old new (drop (length old) s)) \<le> length s"
        using le assms(2) by simp
      moreover have "py_replace old new s = new @ py_replace old new (drop (length old) s)"
        using assms(1) True Cons by (intro py_replace_match) simp_all
      ultimately show ?thesis by (simp only:)
    next
      case False
      have "length cs < length s"
        using Cons by simp
      then have "length (py_replace old new cs) \<le> length cs"
        by (rule less)
      moreover have "py_replace old new s = c # py_replace old new cs"
        using assms(1) False unfolding Cons by (rule py_replace_skip)
      ultimately show ?thesis using Cons by simp
    qed
  qed
qed

lemma py_replace_length_less:
  assumes "old \<noteq> []" and "length new < length old"
  shows "py_contains old s \<Longrightarrow> length (py_replace old new s) < length s"
proof (induction "length s" arbitrary: s rule: less_induct)
  case less
  show ?case
  proof (cases s)
    case Nil
    then show ?thesis using less.prems assms(1) by simp
  next
    case (Cons c cs)
    show ?thesis
    proof (cases "py_startswith s old")
      case True
      have le: "length old \<le> length s"
        using True by (rule py_startswith_length)
      have "length (py_replace old new (drop (length old) s)) \<le> length (drop (length old) s)"
        using assms by (intro py_replace_length_le) simp_all
      then have "length (new @ py_replace old new (drop (length old) s)) < length s"
        using le assms(2) by simp
      moreover have "py_replace old new s = new @ py_replace old new (drop (length old) s)"
        using assms(1) True Cons by (intro py_replace_match) simp_all
      ultimately show ?thesis by (simp only:)
    next
      case False
      then have "py_contains old cs"
        using less.prems unfolding Cons by simp
      moreover have "length cs < length s"
        using Cons by simp
      ultimately have "length (py_replace old new cs) < length cs"
        by (intro less) 
      moreover have "py_replace old new s = c # py_replace old new cs"
        using assms(1) False unfolding Cons by (rule py_replace_skip)
      ultimately show ?thesis using Cons by simp
    qed
  qed
qed

text \<open>\<open>while '\n\n\n' in text: text = text.replace('\n\n\n', '\n\n')\<close>\<close>

function collapse_newlines :: "pystr \<Rightarrow> pystr" where
  "collapse_newlines text =
     (if py_contains [10, 10, 10] text
      then collapse_newlines (py_replace [10, 10, 10] [10, 10] text)
      else text)"
  by pat_completeness auto
termination
proof (relation "measure length")
  show "wf (measure length)"
    by (rule wf_measure)
next
  fix t :: pystr
  assume "py_contains [10, 10, 10] t"
  then have "length (py_replace [10, 10, 10] [10, 10] t) < length t"
    by (intro py_replace_length_less) simp_all
  then show "(py_replace [10, 10, 10] [10, 10] t, t) \<in> measure length"
    by (simp only: in_measure)
qed

declare collapse_newlines.simps [simp del]

definition OCR_TEXT_MIN_LENGTH :: nat where
  "OCR_TEXT_MIN_LENGTH = 10"

text \<open>
  \<open>clean_ocr_text\<close>. The argument is a string or \<open>None\<close>; \<open>not raw_text\<close> holds for
  \<open>None\<close> and for the empty string.
\<close>

definition clean_ocr_text :: "pystr option \<Rightarrow> pystr option" where
  "clean_ocr_text raw_text =
     (case raw_text of
        None \<Rightarrow> None
      | Some raw \<Rightarrow>
          if raw = [] then None
          else
            (let text1 = filter (\<lambda>char. char \<ge> 32 \<or> char = 10 \<or> char = 9 \<or> char = 13) raw;
                 text2 = py_join [32] (py_split text1);
                 text3 = collapse_newlines text2;
                 text4 = py_strip text3
             in if length text4 \<ge> OCR_TEXT_MIN_LENGTH then Some text4 else None))"

text \<open>The test of the filter, by name: the characters the first step keeps.\<close>

definition keep_char :: "nat \<Rightarrow> bool" where
  "keep_char char = (char \<ge> 32 \<or> char = 10 \<or> char = 9 \<or> char = 13)"

section \<open>The OCR functions\<close>

text \<open>
  The OCR service is reached through a client of the vendor's library. The scripts use
  two of its calls, one for an image and one for a PDF file; each returns a response or
  raises. A response for an image carries the message of an error the service reports
  (empty when there is none) and the annotation of the full text, if there is one; the
  response for a file is a list of file responses, each a list of such responses, one
  for each page. The global \<open>vision_client\<close> is \<open>None\<close> when the client could not be
  made at start.
\<close>

type_synonym bytes = "nat list"

record annotate_image_response =
  error_message :: pystr
  full_text_annotation :: "full_text_annotation option"

record vision_client =
  document_text_detection :: "bytes \<Rightarrow> exn + annotate_image_response"
  batch_annotate_files :: "bytes \<Rightarrow> exn + annotate_image_response list list"

text \<open>
  \<open>extract_text_from_image_bytes\<close> of \<open>src/migration\<close>. Both handlers of its \<open>try\<close> log the
  exception and raise it again, so that the \<open>try\<close> changes no outcome. The file name is
  used in the log only and is left out, as is the log; the confidence is computed for
  the log (\<open>avg_confidence\<close> above) and is no part of the result.
\<close>

definition extract_text_from_image_bytes :: "vision_client option \<Rightarrow> bytes \<Rightarrow> exn + pystr option" where
  "extract_text_from_image_bytes client content_bytes =
     (case client of
        None \<Rightarrow> Inl (Exn RuntimeError (py ''Vision client not initialized''))
      | Some vision_client \<Rightarrow>
          (case document_text_detection vision_client content_bytes of
             Inl e \<Rightarrow> Inl e
           | Inr response \<Rightarrow>
               if error_message response \<noteq> []
               then Inl (Exn PlainException (py ''Vision API error: '' @ error_message response))
               else (case full_text_annotation response of
                       Some annotation \<Rightarrow> Inr (clean_ocr_text (Some (annotation_text annotation)))
                     | None \<Rightarrow> Inr None)))"

text \<open>The text of the pages that have an annotation, each followed by a blank line.\<close>

fun pages_text :: "annotate_image_response list \<Rightarrow> pystr" where
  "pages_text [] = []"
| "pages_text (page # rest) =
     (case full_text_annotation page of
        Some annotation \<Rightarrow> annotation_text annotation @ py ''\<newline>\<newline>'' @ pages_text rest
      | None \<Rightarrow> pages_text rest)"

text \<open>
  \<open>extract_text_from_pdf_bytes\<close> of \<open>src/migration\<close>: the pages of the first file
  response; \<open>cleaned if cleaned else None\<close> is \<open>cleaned\<close>, which is \<open>None\<close> or a text of ten
  characters or more.
\<close>

definition extract_text_from_pdf_bytes :: "vision_client option \<Rightarrow> bytes \<Rightarrow> exn + pystr option" where
  "extract_text_from_pdf_bytes client content_bytes =
     (case client of
        None \<Rightarrow> Inl (Exn RuntimeError (py ''Vision client not initialized''))
      | Some vision_client \<Rightarrow>
          (case batch_annotate_files vision_client content_bytes of
             Inl e \<Rightarrow> Inl e
           | Inr responses \<Rightarrow>
               (let page_responses = (case responses of [] \<Rightarrow> [] | first # others \<Rightarrow> first);
                    full_text = pages_text page_responses
                in Inr (clean_ocr_text (Some full_text)))))"

text \<open>
  \<open>extract_text_sync\<close> of \<open>src/migration\<close>. The whole body is in a \<open>try\<close> whose handler
  \<open>except Exception\<close> logs a warning and returns \<open>None\<close>.
\<close>

definition extract_text_sync ::
  "vision_client option \<Rightarrow> bytes \<Rightarrow> pystr \<Rightarrow> exn + pystr option" where
  "extract_text_sync client content_bytes mime_type =
     (case (if py_startswith mime_type (py ''image/'')
            then extract_text_from_image_bytes client content_bytes
            else if mime_type = py ''application/pdf''
            then extract_text_from_pdf_bytes client content_bytes
            else Inr None) of
        Inl e \<Rightarrow> Inr None
      | Inr text \<Rightarrow> Inr text)"

text \<open>
  The same three functions in \<open>src/backend/scripts\<close>. They return the text as the
  service gave it, without cleaning; the PDF function returns \<open>None\<close> for an empty text.
\<close>

definition backend_extract_text_from_image_bytes ::
  "vision_client option \<Rightarrow> bytes \<Rightarrow> exn + pystr option" where
  "backend_extract_text_from_image_bytes client content_bytes =
     (case client of
        None \<Rightarrow> Inl (Exn RuntimeError (py ''Vision client not initialized''))
      | Some vision_client \<Rightarrow>
          (case document_text_detection vision_client content_bytes of
             Inl e \<Rightarrow> Inl e
           | Inr response \<Rightarrow>
               if error_message response \<noteq> []
               then Inl (Exn PlainException (py ''Vision API error: '' @ error_message response))
               else (case full_text_annotation response of
                       Some annotation \<Rightarrow> Inr (Some (annotation_text annotation))
                     | None \<Rightarrow> Inr None)))"

definition backend_extract_text_from_pdf_bytes ::
  "vision_client option \<Rightarrow> bytes \<Rightarrow> exn + pystr option" where
  "backend_extract_text_from_pdf_bytes client content_bytes =
     (case client of
        None \<Rightarrow> Inl (Exn RuntimeError (py ''Vision client not initialized''))
      | Some vision_client \<Rightarrow>
          (case batch_annotate_files vision_client content_bytes of
             Inl e \<Rightarrow> Inl e
           | Inr responses \<Rightarrow>
               (let page_responses = (case responses of [] \<Rightarrow> [] | first # others \<Rightarrow> first);
                    full_text = pages_text page_responses
                in Inr (if full_text \<noteq> [] then Some full_text else None))))"

definition backend_extract_text_sync ::
  "vision_client option \<Rightarrow> bytes \<Rightarrow> pystr \<Rightarrow> exn + pystr option" where
  "backend_extract_text_sync client content_bytes mime_type =
     (case (if py_startswith mime_type (py ''image/'')
            then backend_extract_text_from_image_bytes client content_bytes
            else if mime_type = py ''application/pdf''
            then backend_extract_text_from_pdf_bytes client content_bytes
            else Inr None) of
        Inl e \<Rightarrow> Inr None
      | Inr text \<Rightarrow> Inr text)"



section \<open>Chunking a large PDF\<close>

text \<open>
  The PDF library is not part of the repository. A reader made from the bytes of a file
  gives the number of its pages and, for a range of pages, what a writer holding those
  pages writes: the model has one function for the lines that add the pages
  \<open>page_idx\<close> to \<open>end_page - 1\<close> to a new writer and write it to a buffer. It returns the
  bytes of the buffer, or raises when the library does.
\<close>

record pdf_reader =
  page_count :: nat
  write_pages :: "int \<Rightarrow> int \<Rightarrow> exn + bytes"

definition SYNC_LIMIT :: int where
  "SYNC_LIMIT = 40 * 1024 * 1024"

definition DEFAULT_CHUNK_PAGES :: int where
  "DEFAULT_CHUNK_PAGES = 5"

definition CHUNK_MIN_PAGES :: int where
  "CHUNK_MIN_PAGES = 1"

text \<open>
  The variables of the loop. \<open>emitted\<close> is not a variable of the scripts: it records, in
  order, each range of pages \<open>[page_idx, end_page)\<close> at which the loop sets
  \<open>page_idx = end_page\<close>, and what happened to it: the range was sent to the OCR, it
  was skipped as a single chunk over the limit, or it was dropped by the handler of an
  exception. The script of \<open>src/backend/scripts\<close> has no counters of chunks; its loop leaves
  the two fields as they are.
\<close>

datatype range_kind = Processed | Skipped | Dropped

record chunk_state =
  gathered_text :: pystr
  page_idx :: int
  chunk_pages :: int
  total_chunks :: int
  successful_chunks :: int
  emitted :: "(int \<times> int \<times> range_kind) list"

definition initial_chunk_state :: "int \<Rightarrow> chunk_state" where
  "initial_chunk_state start_chunk_pages =
     \<lparr> gathered_text = [], page_idx = 0,
       chunk_pages = max start_chunk_pages CHUNK_MIN_PAGES,
       total_chunks = 0, successful_chunks = 0, emitted = [] \<rparr>"

text \<open>
  One round of \<open>while page_idx < total_pages\<close> in \<open>src/migration\<close>. The body is in a
  \<open>try\<close>; the handler sets \<open>page_idx = end_page\<close> and goes on with the loop.
\<close>

definition chunk_step ::
  "vision_client option \<Rightarrow> (int \<Rightarrow> int \<Rightarrow> exn + bytes) \<Rightarrow> int \<Rightarrow> int \<Rightarrow> chunk_state \<Rightarrow> chunk_state" where
  "chunk_step client write_chunk total_pages start_chunk_pages st =
     (let end_page = min (page_idx st + chunk_pages st) total_pages
      in case write_chunk (page_idx st) end_page of
           Inl e \<Rightarrow>
             st\<lparr> page_idx := end_page,
                 emitted := emitted st @ [(page_idx st, end_page, Dropped)] \<rparr>
         | Inr buf \<Rightarrow>
             (let chunk_size = int (length buf);
                  counted = st\<lparr> total_chunks := total_chunks st + 1 \<rparr>
              in if chunk_size > SYNC_LIMIT \<and> chunk_pages st > CHUNK_MIN_PAGES
                 then counted\<lparr> chunk_pages := max CHUNK_MIN_PAGES (chunk_pages st div 2) \<rparr>
                 else if chunk_size > SYNC_LIMIT \<and> chunk_pages st = CHUNK_MIN_PAGES
                 then counted\<lparr> page_idx := end_page,
                               emitted := emitted st @ [(page_idx st, end_page, Skipped)] \<rparr>
                 else (case extract_text_sync client buf (py ''application/pdf'') of
                         Inl e \<Rightarrow>
                           counted\<lparr> page_idx := end_page,
                                    emitted := emitted st @ [(page_idx st, end_page, Dropped)] \<rparr>
                       | Inr text \<Rightarrow>
                           (let gathered =
                                  (case text of
                                     None \<Rightarrow> counted
                                   | Some t \<Rightarrow>
                                       if t \<noteq> []
                                       then counted\<lparr> gathered_text :=
                                                        gathered_text st @ t @ py ''\<newline>\<newline>'',
                                                      successful_chunks := successful_chunks st + 1 \<rparr>
                                       else counted);
                                advanced =
                                  gathered\<lparr> page_idx := end_page,
                                             emitted := emitted st @ [(page_idx st, end_page, Processed)] \<rparr>
                            in if chunk_pages st < start_chunk_pages
                               then advanced\<lparr> chunk_pages := min start_chunk_pages (chunk_pages st * 2) \<rparr>
                               else advanced))))"

text \<open>
  The loop. Nothing in its text bounds the number of rounds, so it is defined as a
  function that may not return (\<open>None\<close>); that it returns is proved below.
\<close>

partial_function (option) chunk_loop ::
  "vision_client option \<Rightarrow> (int \<Rightarrow> int \<Rightarrow> exn + bytes) \<Rightarrow> int \<Rightarrow> int \<Rightarrow> chunk_state
     \<Rightarrow> chunk_state option" where
  "chunk_loop client write_chunk total_pages start_chunk_pages st =
     (if page_idx st < total_pages
      then chunk_loop client write_chunk total_pages start_chunk_pages
             (chunk_step client write_chunk total_pages start_chunk_pages st)
      else Some st)"

text \<open>
  \<open>dynamic_chunk_and_ocr_pdf\<close> of \<open>src/migration\<close>, with the constructor \<open>PdfReader\<close> as a
  parameter.
\<close>

definition dynamic_chunk_and_ocr_pdf ::
  "vision_client option \<Rightarrow> (bytes \<Rightarrow> exn + pdf_reader) \<Rightarrow> bytes \<Rightarrow> int \<Rightarrow> pystr option option" where
  "dynamic_chunk_and_ocr_pdf client PdfReader pdf_bytes start_chunk_pages =
     (case PdfReader pdf_bytes of
        Inl e \<Rightarrow> Some None
      | Inr reader \<Rightarrow>
          (let total_pages = int (page_count reader)
           in if total_pages = 0 then Some None
              else (case chunk_loop client (write_pages reader) total_pages start_chunk_pages
                           (initial_chunk_state start_chunk_pages) of
                      None \<Rightarrow> None
                    | Some st \<Rightarrow>
                        Some (if gathered_text st \<noteq> []
                              then clean_ocr_text (Some (gathered_text st)) else None))))"

text \<open>
  One round of the loop in \<open>src/backend/scripts\<close>. There is no \<open>try\<close> in this loop: an
  exception of the library leaves the loop and the function.
\<close>

definition backend_chunk_step ::
  "vision_client option \<Rightarrow> (int \<Rightarrow> int \<Rightarrow> exn + bytes) \<Rightarrow> int \<Rightarrow> int \<Rightarrow> chunk_state
     \<Rightarrow> exn + chunk_state" where
  "backend_chunk_step client write_chunk total_pages start_chunk_pages st =
     (let end_page = min (page_idx st + chunk_pages st) total_pages
      in case write_chunk (page_idx st) end_page of
           Inl e \<Rightarrow> Inl e
         | Inr buf \<Rightarrow>
             (let chunk_size = int (length buf)
              in if chunk_size > SYNC_LIMIT \<and> chunk_pages st > CHUNK_MIN_PAGES
                 then Inr (st\<lparr> chunk_pages := max CHUNK_MIN_PAGES (chunk_pages st div 2) \<rparr>)
                 else if chunk_size > SYNC_LIMIT \<and> chunk_pages st = CHUNK_MIN_PAGES
                 then Inr (st\<lparr> page_idx := end_page,
                                emitted := emitted st @ [(page_idx st, end_page, Skipped)] \<rparr>)
                 else (case backend_extract_text_sync client buf (py ''application/pdf'') of
                         Inl e \<Rightarrow> Inl e
                       | Inr text \<Rightarrow>
                           (let gathered =
                                  (case text of
                                     None \<Rightarrow> st
                                   | Some t \<Rightarrow>
                                       if t \<noteq> []
                                       then st\<lparr> gathered_text :=
                                                   gathered_text st @ t @ py ''\<newline>\<newline>'' \<rparr>
                                       else st);
                                advanced =
                                  gathered\<lparr> page_idx := end_page,
                                             emitted := emitted st @ [(page_idx st, end_page, Processed)] \<rparr>
                            in Inr (if chunk_pages st < start_chunk_pages
                                    then advanced\<lparr> chunk_pages :=
                                                     min start_chunk_pages (chunk_pages st * 2) \<rparr>
                                    else advanced)))))"

partial_function (option) backend_chunk_loop ::
  "vision_client option \<Rightarrow> (int \<Rightarrow> int \<Rightarrow> exn + bytes) \<Rightarrow> int \<Rightarrow> int \<Rightarrow> chunk_state
     \<Rightarrow> (exn + chunk_state) option" where
  "backend_chunk_loop client write_chunk total_pages start_chunk_pages st =
     (if page_idx st < total_pages
      then (case backend_chunk_step client write_chunk total_pages start_chunk_pages st of
              Inl e \<Rightarrow> Some (Inl e)
            | Inr st' \<Rightarrow> backend_chunk_loop client write_chunk total_pages start_chunk_pages st')
      else Some (Inr st))"

definition backend_dynamic_chunk_and_ocr_pdf ::
  "vision_client option \<Rightarrow> (bytes \<Rightarrow> exn + pdf_reader) \<Rightarrow> bytes \<Rightarrow> int
     \<Rightarrow> (exn + pystr option) option" where
  "backend_dynamic_chunk_and_ocr_pdf client PdfReader pdf_bytes start_chunk_pages =
     (case PdfReader pdf_bytes of
        Inl e \<Rightarrow> Some (Inr None)
      | Inr reader \<Rightarrow>
          (let total_pages = int (page_count reader)
           in if total_pages = 0 then Some (Inr None)
              else (case backend_chunk_loop client (write_pages reader) total_pages start_chunk_pages
                           (initial_chunk_state start_chunk_pages) of
                      None \<Rightarrow> None
                    | Some (Inl e) \<Rightarrow> Some (Inl e)
                    | Some (Inr st) \<Rightarrow>
                        Some (Inr (if py_strip (gathered_text st) \<noteq> []
                                   then Some (gathered_text st) else None)))))"

text \<open>
  Words for the statements about the ranges: \<open>contiguous a rs b\<close> says that the ranges
  \<open>rs\<close>, in their order, start at \<open>a\<close>, end at \<open>b\<close>, are not empty, and that each starts
  where the one before it ends; \<open>covering p rs\<close> is the number of ranges that hold
  page \<open>p\<close>.
\<close>

fun contiguous :: "int \<Rightarrow> (int \<times> int \<times> range_kind) list \<Rightarrow> int \<Rightarrow> bool" where
  "contiguous a [] b = (a = b)"
| "contiguous a ((s, e, k) # rs) b = (s = a \<and> s < e \<and> contiguous e rs b)"

definition covering :: "int \<Rightarrow> (int \<times> int \<times> range_kind) list \<Rightarrow> nat" where
  "covering p rs = length (filter (\<lambda>(s, e, k). s \<le> p \<and> p < e) rs)"

text \<open>
  The pages of a PDF whose page 2 (counted from 0) is a scan of 50 MB and whose other
  pages are small: the bytes written for the pages \<open>a\<close> to \<open>b - 1\<close>.
\<close>

definition sample_write :: "int \<Rightarrow> int \<Rightarrow> exn + bytes" where
  "sample_write a b = Inr (replicate (if a \<le> 2 \<and> 2 < b then 52428800 else 1000) 0)"

section \<open>Properties of the storage key\<close>

lemma year_digits_class:
  "year_digits db path_parts = Inl e \<Longrightarrow> cls e = ValueError \<or> cls e = IndexError"
  by (auto simp: year_digits_def py_index_def py_int_def split: if_splits option.splits)

lemma year_of_total: "\<exists>y. year_of db path_parts = Inr y"
proof (cases "year_digits db path_parts")
  case (Inl e)
  then show ?thesis
    using year_digits_class [OF Inl] by (simp add: year_of_def)
next
  case (Inr n)
  then show ?thesis by (simp add: year_of_def)
qed

lemma year_of_missing:
  "length path_parts \<le> 1 \<Longrightarrow> year_of db path_parts = Inr (YearStr (py ''unknown''))"
  by (simp add: year_of_def year_digits_def py_index_def)

lemma year_of_no_digits:
  assumes "1 < length path_parts" and "filter (isdigit db) (path_parts ! 1) = []"
  shows "year_of db path_parts = Inr (YearStr (path_parts ! 1))"
  using assms by (simp add: year_of_def year_digits_def py_index_def py_int_def)

text \<open>
  C10. For a list of path parts with at least one element and any file name,
  \<open>build_s3_key\<close> returns a key and raises nothing. The key is
  \<open>branch/year/subject/resource_type/filename\<close>, where a missing period gives the year
  \<open>unknown\<close>, a period without digits gives the period itself, a missing subject gives
  \<open>unknown\<close> and a missing resource type gives \<open>Notes\<close>.
\<close>

theorem build_s3_key_returns:
  assumes "path_parts \<noteq> []"
  shows "\<exists>year. build_s3_key db path_parts filename =
           Inr (path_parts ! 0 @ py ''/'' @ year @ py ''/''
                @ (if length path_parts > 2 then path_parts ! 2 else py ''unknown'') @ py ''/''
                @ (if length path_parts > 3 then path_parts ! 3 else py ''Notes'') @ py ''/''
                @ filename)
         \<and> (length path_parts = 1 \<longrightarrow> year = py ''unknown'')
         \<and> (length path_parts > 1 \<and> filter (isdigit db) (path_parts ! 1) = []
              \<longrightarrow> year = path_parts ! 1)"
proof -
  obtain y where y: "year_of db path_parts = Inr y"
    using year_of_total by blast
  have len: "0 < length path_parts"
    using assms by simp
  have key: "build_s3_key db path_parts filename =
           Inr (path_parts ! 0 @ py ''/'' @ format_year y @ py ''/''
                @ (if length path_parts > 2 then path_parts ! 2 else py ''unknown'') @ py ''/''
                @ (if length path_parts > 3 then path_parts ! 3 else py ''Notes'') @ py ''/''
                @ filename)"
    using y len by (simp add: build_s3_key_def py_index_def Let_def)
  have missing: "length path_parts = 1 \<longrightarrow> format_year y = py ''unknown''"
    using y year_of_missing [of path_parts db] by auto
  have raw: "length path_parts > 1 \<and> filter (isdigit db) (path_parts ! 1) = []
               \<longrightarrow> format_year y = path_parts ! 1"
    using y year_of_no_digits [of path_parts db] by auto
  from key missing raw show ?thesis by blast
qed

theorem build_s3_key_returns_witness:
  "[py ''CSE''] \<noteq> []
   \<and> build_s3_key ascii_db [py ''CSE''] (py ''a.pdf'') = Inr (py ''CSE/unknown/unknown/Notes/a.pdf'')
   \<and> build_s3_key ascii_db [py ''CSE'', py ''Final''] (py ''a.pdf'')
       = Inr (py ''CSE/Final/unknown/Notes/a.pdf'')"
proof -
  have h: "[py ''CSE''] \<noteq> []" by simp
  have a: "build_s3_key ascii_db [py ''CSE''] (py ''a.pdf'') = Inr (py ''CSE/unknown/unknown/Notes/a.pdf'')"
    using build_s3_key_returns [OF h, of ascii_db "py ''a.pdf''"] by (auto simp: py_def)
  have h2: "[py ''CSE'', py ''Final''] \<noteq> []" by simp
  have b: "build_s3_key ascii_db [py ''CSE'', py ''Final''] (py ''a.pdf'')
       = Inr (py ''CSE/Final/unknown/Notes/a.pdf'')"
    using build_s3_key_returns [OF h2, of ascii_db "py ''a.pdf''"]
    by (auto simp: py_def ascii_db_def)
  from h a b show ?thesis by blast
qed

section \<open>Properties of the confidence\<close>

lemma scores_of_symbols_eq:
  "scores_of_symbols acc ss = acc @ filter (\<lambda>c. c > 0) (map confidence ss)"
  by (induction ss arbitrary: acc) auto

lemma scores_of_words_eq:
  "scores_of_words acc ws =
     acc @ filter (\<lambda>c. c > 0) (concat (map (\<lambda>w. map confidence (symbols w)) ws))"
  by (induction ws arbitrary: acc) (auto simp: scores_of_symbols_eq)

lemma scores_of_paragraphs_eq:
  "scores_of_paragraphs acc ps =
     acc @ filter (\<lambda>c. c > 0)
       (concat (map (\<lambda>p. concat (map (\<lambda>w. map confidence (symbols w)) (words p))) ps))"
  by (induction ps arbitrary: acc) (auto simp: scores_of_words_eq)

lemma scores_of_blocks_eq:
  "scores_of_blocks acc bs =
     acc @ filter (\<lambda>c. c > 0)
       (concat (map (\<lambda>b. concat (map (\<lambda>p. concat (map (\<lambda>w.
          map confidence (symbols w)) (words p))) (paragraphs b))) bs))"
  by (induction bs arbitrary: acc) (auto simp: scores_of_paragraphs_eq)

lemma scores_of_pages_eq:
  "scores_of_pages acc pgs =
     acc @ filter (\<lambda>c. c > 0)
       (concat (map (\<lambda>pg. concat (map (\<lambda>b. concat (map (\<lambda>p. concat (map (\<lambda>w.
          map confidence (symbols w)) (words p))) (paragraphs b))) (blocks pg))) pgs))"
  by (induction pgs arbitrary: acc) (auto simp: scores_of_blocks_eq)

lemma foldl_plus_sum_list: "foldl (+) a xs = a + sum_list (xs :: real list)"
  by (induction xs arbitrary: a) auto

lemma py_sum_sum_list: "py_sum xs = sum_list xs"
  by (simp add: py_sum_def foldl_plus_sum_list)

text \<open>
  C7. For every response, the document-level confidence is the arithmetic mean of the
  positive scores in the sequence of its per-symbol scores, and it is 0 when that
  sequence is empty.
\<close>

theorem avg_confidence_mean:
  "avg_confidence annotation = mean_of_positive (symbol_scores annotation)
   \<and> (symbol_scores annotation = [] \<longrightarrow> avg_confidence annotation = 0)"
proof -
  have scores: "scores_of_pages [] (pages annotation)
                  = filter (\<lambda>c. c > 0) (symbol_scores annotation)"
    by (simp add: scores_of_pages_eq symbol_scores_def)
  have mean: "avg_confidence annotation = mean_of_positive (symbol_scores annotation)"
    by (simp add: avg_confidence_def mean_of_positive_def scores py_sum_sum_list Let_def)
  have empty: "symbol_scores annotation = [] \<longrightarrow> avg_confidence annotation = 0"
    by (simp add: mean mean_of_positive_def)
  from mean empty show ?thesis by blast
qed

definition sample_annotation :: full_text_annotation where
  "sample_annotation =
     \<lparr> annotation_text = py ''ab c'',
       pages = [\<lparr> blocks = [\<lparr> paragraphs = [\<lparr> words =
         [\<lparr> symbols = [\<lparr> confidence = 1/2 \<rparr>, \<lparr> confidence = 0 \<rparr>] \<rparr>,
          \<lparr> symbols = [\<lparr> confidence = 1/4 \<rparr>] \<rparr>] \<rparr>] \<rparr>] \<rparr>] \<rparr>"

theorem avg_confidence_mean_witness:
  "symbol_scores sample_annotation = [1/2, 0, 1/4]
   \<and> avg_confidence sample_annotation = 3/8
   \<and> symbol_scores \<lparr> annotation_text = [], pages = [] \<rparr> = []
   \<and> avg_confidence \<lparr> annotation_text = [], pages = [] \<rparr> = 0"
proof -
  have s: "symbol_scores sample_annotation = [1/2, 0, 1/4]"
    by (simp add: symbol_scores_def sample_annotation_def)
  have a: "avg_confidence sample_annotation = 3/8"
    using avg_confidence_mean [of sample_annotation]
    by (simp add: s mean_of_positive_def)
  have e: "symbol_scores \<lparr> annotation_text = [], pages = [] \<rparr> = []"
    by (simp add: symbol_scores_def)
  have z: "avg_confidence \<lparr> annotation_text = [], pages = [] \<rparr> = 0"
    using avg_confidence_mean [of "\<lparr> annotation_text = [], pages = [] \<rparr>"] e by simp
  from s a e z show ?thesis by blast
qed

section \<open>Properties of the retry executor\<close>

lemma world_after_Suc: "world_after func (Suc i) s = world_after func i (snd (func s))"
  by (simp only: world_after_def funpow_Suc_right o_apply)

lemma outcome_at_Suc: "outcome_at func (Suc i) s = outcome_at func i (snd (func s))"
  by (simp only: outcome_at_def world_after_Suc)

lemma delay_at_Suc: "delay_at d b (Suc i) = delay_at (d * b) b i"
  by (simp only: delay_at_def funpow_Suc_right o_apply)

lemma delay_at_0: "delay_at d b 0 = d"
  by (simp add: delay_at_def)

lemma retried_Suc:
  "retried d b (Suc k) = Invoked # Slept d # retried (d * b) b k"
proof -
  have "[0..<Suc k] = 0 # map Suc [0..<k]"
    by (simp only: upt_conv_Cons zero_less_Suc map_Suc_upt)
  then have "retried d b (Suc k) =
      [Invoked, Slept (delay_at d b 0)]
      @ concat (map (\<lambda>i. [Invoked, Slept (delay_at d b (Suc i))]) [0..<k])"
    by (simp add: retried_def comp_def del: upt_Suc)
  then show ?thesis
    by (simp add: retried_def delay_at_Suc) (simp add: delay_at_def)
qed

lemma retry_from_prefix:
  assumes "\<forall>i<k. \<exists>e. outcome_at func i s = Inl e \<and> allowed e"
    and "\<forall>i<k. time_sleep (delay_at delay backoff i) = None"
    and "attempt + int k \<le> max_retries"
  shows "retry_from time_sleep func max_retries backoff allowed swallow attempt delay s =
     (case retry_from time_sleep func max_retries backoff allowed swallow (attempt + int k)
             (delay_at delay backoff k) (world_after func k s) of
        (r, s', trace) \<Rightarrow> (r, s', retried delay backoff k @ trace))"
  using assms
proof (induction k arbitrary: attempt delay s)
  case 0
  then show ?case by (simp add: delay_at_def world_after_def retried_def)
next
  case (Suc k)
  from Suc.prems(1) obtain e where e: "outcome_at func 0 s = Inl e" "allowed e"
    by blast
  then obtain s1 where s1: "func s = (Inl e, s1)"
    by (cases "func s") (simp add: outcome_at_def world_after_def)
  have slept: "time_sleep delay = None"
    using Suc.prems(2) delay_at_0 [of delay backoff] by force
  have rest: "\<forall>i<k. \<exists>e. outcome_at func i s1 = Inl e \<and> allowed e"
  proof (intro allI impI)
    fix i assume "i < k"
    then have "\<exists>e. outcome_at func (Suc i) s = Inl e \<and> allowed e"
      using Suc.prems(1) by simp
    then show "\<exists>e. outcome_at func i s1 = Inl e \<and> allowed e"
      by (simp add: outcome_at_Suc s1)
  qed
  have rest_sleep: "\<forall>i<k. time_sleep (delay_at (delay * backoff) backoff i) = None"
  proof (intro allI impI)
    fix i assume "i < k"
    then have "time_sleep (delay_at delay backoff (Suc i)) = None"
      using Suc.prems(2) by simp
    then show "time_sleep (delay_at (delay * backoff) backoff i) = None"
      by (simp only: delay_at_Suc)
  qed
  have bound: "(attempt + 1) + int k \<le> max_retries"
    using Suc.prems(3) by simp
  have step: "retry_from time_sleep func max_retries backoff allowed swallow attempt delay s =
      (case retry_from time_sleep func max_retries backoff allowed swallow (attempt + 1) (delay * backoff) s1 of
         (r, s'', trace) \<Rightarrow> (r, s'', Invoked # Slept delay # trace))"
    using s1 e(2) slept Suc.prems(3) by (subst retry_from.simps) simp
  have ih: "retry_from time_sleep func max_retries backoff allowed swallow (attempt + 1) (delay * backoff) s1 =
     (case retry_from time_sleep func max_retries backoff allowed swallow (attempt + 1 + int k)
             (delay_at (delay * backoff) backoff k) (world_after func k s1) of
        (r, s', trace) \<Rightarrow> (r, s', retried (delay * backoff) backoff k @ trace))"
    by (rule Suc.IH [OF rest rest_sleep bound])
  have same: "attempt + int (Suc k) = attempt + 1 + int k" by simp
  have w: "world_after func (Suc k) s = world_after func k s1"
    by (simp add: world_after_Suc s1)
  show ?case
    unfolding same w delay_at_Suc retried_Suc
    by (subst step, subst ih) (simp split: prod.splits)
qed

lemma invocations_retried: "invocations (retried d b k @ [Invoked]) = k + 1"
  by (induction k arbitrary: d) (simp_all add: retried_Suc invocations_def retried_def)

lemma sleeps_append: "sleeps (xs @ ys) = sleeps xs @ sleeps ys"
  by (induction xs rule: sleeps.induct) simp_all

lemma sleeps_retried: "sleeps (retried d b k) = map (delay_at d b) [0..<k]"
  by (induction k) (simp_all add: retried_def sleeps_append)

lemma retry_from_exhausted:
  assumes "func s = (Inl e, s')" and "allowed e" and "attempt + 1 > max_retries"
  shows "retry_from time_sleep func max_retries backoff allowed swallow attempt delay s =
           (if swallow then Inr None else Inl e, s', [Invoked])"
  using assms by (subst retry_from.simps) simp

lemma retry_from_not_allowed:
  assumes "func s = (Inl e, s')" and "\<not> allowed e"
  shows "retry_from time_sleep func max_retries backoff allowed swallow attempt delay s =
           (Inl e, s', [Invoked])"
  using assms by (subst retry_from.simps) simp

lemma retry_from_sleep_raises:
  assumes "func s = (Inl e, s')" and "allowed e" and "attempt + 1 \<le> max_retries"
    and "time_sleep delay = Some err"
  shows "retry_from time_sleep func max_retries backoff allowed swallow attempt delay s =
           (Inl err, s', [Invoked])"
  using assms by (subst retry_from.simps) simp

lemma func_at:
  "outcome_at func k s = r \<Longrightarrow> func (world_after func k s) = (r, world_after func (Suc k) s)"
  by (cases "func (world_after func k s)") (auto simp: outcome_at_def world_after_def)

lemma retry_loop_all_fail:
  assumes nonneg: "0 \<le> max_retries"
    and fails: "\<forall>i \<le> nat max_retries. \<exists>e. outcome_at func i s = Inl e \<and> allowed e"
    and slept: "\<forall>i < nat max_retries. time_sleep (delay_at initial_delay backoff i) = None"
  shows "\<exists>e. outcome_at func (nat max_retries) s = Inl e
           \<and> retry_loop time_sleep func max_retries initial_delay backoff allowed swallow s =
               (if swallow then Inr None else Inl e,
                world_after func (nat max_retries + 1) s,
                retried initial_delay backoff (nat max_retries) @ [Invoked])"
proof -
  let ?n = "nat max_retries"
  from fails obtain e where e: "outcome_at func ?n s = Inl e" "allowed e"
    by blast
  have before: "\<forall>i<?n. \<exists>e. outcome_at func i s = Inl e \<and> allowed e"
    using fails by simp
  have bound: "0 + int ?n \<le> max_retries"
    using nonneg by simp
  have last: "retry_from time_sleep func max_retries backoff allowed swallow (0 + int ?n)
                 (delay_at initial_delay backoff ?n) (world_after func ?n s) =
               (if swallow then Inr None else Inl e, world_after func (Suc ?n) s, [Invoked])"
    using nonneg
    by (intro retry_from_exhausted [where e = e and allowed = allowed]) (simp_all add: func_at e)
  have "retry_loop time_sleep func max_retries initial_delay backoff allowed swallow s =
          (case retry_from time_sleep func max_retries backoff allowed swallow (0 + int ?n)
                  (delay_at initial_delay backoff ?n) (world_after func ?n s) of
             (r, s', trace) \<Rightarrow> (r, s', retried initial_delay backoff ?n @ trace))"
    unfolding retry_loop_def by (rule retry_from_prefix [OF before slept bound])
  also have "\<dots> = (if swallow then Inr None else Inl e, world_after func (Suc ?n) s,
           retried initial_delay backoff ?n @ [Invoked])"
    unfolding last by simp
  finally show ?thesis
    using e(1) by auto
qed

lemma retry_loop_not_allowed:
  assumes before: "\<forall>i<k. \<exists>e'. outcome_at func i s = Inl e' \<and> allowed e'"
    and slept: "\<forall>i<k. time_sleep (delay_at initial_delay backoff i) = None"
    and bound: "int k \<le> max_retries"
    and raised: "outcome_at func k s = Inl e"
    and other: "\<not> allowed e"
  shows "retry_loop time_sleep func max_retries initial_delay backoff allowed swallow s =
           (Inl e, world_after func (k + 1) s, retried initial_delay backoff k @ [Invoked])"
proof -
  have bound': "0 + int k \<le> max_retries"
    using bound by simp
  have last: "retry_from time_sleep func max_retries backoff allowed swallow (0 + int k)
                 (delay_at initial_delay backoff k) (world_after func k s) =
               (Inl e, world_after func (Suc k) s, [Invoked])"
    by (intro retry_from_not_allowed [where e = e and allowed = allowed])
       (simp_all add: func_at raised other)
  have "retry_loop time_sleep func max_retries initial_delay backoff allowed swallow s =
          (case retry_from time_sleep func max_retries backoff allowed swallow (0 + int k)
                  (delay_at initial_delay backoff k) (world_after func k s) of
             (r, s', trace) \<Rightarrow> (r, s', retried initial_delay backoff k @ trace))"
    unfolding retry_loop_def by (rule retry_from_prefix [OF before slept bound'])
  also have "\<dots> = (Inl e, world_after func (Suc k) s,
           retried initial_delay backoff k @ [Invoked])"
    unfolding last by simp
  finally show ?thesis
    by simp
qed

text \<open>
  What the loop does when \<open>time.sleep\<close> refuses a delay: after \<open>k\<close> attempts that failed
  with an accepted error and were followed by a sleep, attempt \<open>k\<close> fails with an
  accepted error, is not the last one, and the sleep after it raises \<open>err\<close>. The loop
  ends there with \<open>err\<close>, also under \<open>swallow\<close>, after \<open>k + 1\<close> invocations.
\<close>

lemma retry_loop_sleep_raises:
  assumes before: "\<forall>i\<le>k. \<exists>e'. outcome_at func i s = Inl e' \<and> allowed e'"
    and slept: "\<forall>i<k. time_sleep (delay_at initial_delay backoff i) = None"
    and bound: "int k < max_retries"
    and refused: "time_sleep (delay_at initial_delay backoff k) = Some err"
  shows "retry_loop time_sleep func max_retries initial_delay backoff allowed swallow s =
           (Inl err, world_after func (k + 1) s, retried initial_delay backoff k @ [Invoked])"
proof -
  from before obtain e where e: "outcome_at func k s = Inl e" "allowed e"
    by blast
  have before': "\<forall>i<k. \<exists>e'. outcome_at func i s = Inl e' \<and> allowed e'"
    using before by simp
  have bound': "0 + int k \<le> max_retries"
    using bound by simp
  have last: "retry_from time_sleep func max_retries backoff allowed swallow (0 + int k)
                 (delay_at initial_delay backoff k) (world_after func k s) =
               (Inl err, world_after func (Suc k) s, [Invoked])"
    using bound
    by (intro retry_from_sleep_raises [where e = e and allowed = allowed])
       (simp_all add: func_at e refused)
  have "retry_loop time_sleep func max_retries initial_delay backoff allowed swallow s =
          (case retry_from time_sleep func max_retries backoff allowed swallow (0 + int k)
                  (delay_at initial_delay backoff k) (world_after func k s) of
             (r, s', trace) \<Rightarrow> (r, s', retried initial_delay backoff k @ trace))"
    unfolding retry_loop_def by (rule retry_from_prefix [OF before' slept bound'])
  also have "\<dots> = (Inl err, world_after func (Suc k) s,
           retried initial_delay backoff k @ [Invoked])"
    unfolding last by simp
  finally show ?thesis
    by simp
qed

lemma always_fails_world: "world_after always_fails i s = s + i"
  by (induction i) (simp_all add: world_after_def always_fails_def)

lemma always_fails_outcome: "outcome_at always_fails i s = Inl (Exn PlainException (py ''timeout''))"
  by (simp add: outcome_at_def always_fails_def)

text \<open>
  With a negative initial delay the first sleep is refused: one invocation, and the
  \<open>ValueError\<close> of \<open>time.sleep\<close> instead of the error of the operation.
\<close>

lemma retry_loop_negative_delay:
  "retry_loop sleep_nonneg always_fails 2 (- 1) 2 (\<lambda>e. True) swallow 0 =
     (Inl (Exn ValueError (py ''sleep length must be non-negative'')), 1, [Invoked])"
proof -
  have "retry_loop sleep_nonneg always_fails 2 (- 1) 2 (\<lambda>e. True) swallow 0 =
          (Inl (Exn ValueError (py ''sleep length must be non-negative'')),
           world_after always_fails (0 + 1) 0, retried (- 1) 2 0 @ [Invoked])"
    by (rule retry_loop_sleep_raises)
       (simp_all add: always_fails_outcome delay_at_def sleep_nonneg_def)
  then show ?thesis
    by (simp add: always_fails_world retried_def)
qed

text \<open>
  C6. When every attempt of the operation fails with an error the predicate accepts,
  \<open>retry_loop\<close> invokes the operation \<open>max_retries + 1\<close> times, sleeps between two
  attempts for a delay that starts at \<open>initial_delay\<close> and is multiplied by \<open>backoff\<close>
  after each sleep, and then raises the error of the last attempt, or returns \<open>None\<close>
  when \<open>swallow\<close> is set. An error the predicate rejects, at whichever attempt it
  comes, leaves the loop at once: it is raised, and the operation is not invoked again.
  \<open>max_retries\<close> is a count, so it is taken to be non-negative, and the delays are
  durations: each delay the loop sleeps for is taken to be one \<open>time.sleep\<close> accepts
  (the lemmas above show what the loop does when it is not).
\<close>

theorem retry_loop_exhaustion:
  assumes "0 \<le> max_retries"
  shows "((\<forall>i \<le> nat max_retries. \<exists>e. outcome_at func i s = Inl e \<and> allowed e)
          \<and> (\<forall>i < nat max_retries. time_sleep (delay_at initial_delay backoff i) = None) \<longrightarrow>
          (\<exists>e trace. outcome_at func (nat max_retries) s = Inl e
             \<and> retry_loop time_sleep func max_retries initial_delay backoff allowed swallow s =
                 (if swallow then Inr None else Inl e,
                  world_after func (nat max_retries + 1) s, trace)
             \<and> int (invocations trace) = max_retries + 1
             \<and> sleeps trace = map (delay_at initial_delay backoff) [0..<nat max_retries]
             \<and> trace = retried initial_delay backoff (nat max_retries) @ [Invoked]))
       \<and> (\<forall>k e. (\<forall>i<k. \<exists>e'. outcome_at func i s = Inl e' \<and> allowed e')
                 \<and> (\<forall>i<k. time_sleep (delay_at initial_delay backoff i) = None)
                 \<and> int k \<le> max_retries \<and> outcome_at func k s = Inl e \<and> \<not> allowed e \<longrightarrow>
             (\<exists>trace. retry_loop time_sleep func max_retries initial_delay backoff allowed swallow s =
                         (Inl e, world_after func (k + 1) s, trace)
                \<and> invocations trace = k + 1
                \<and> trace = retried initial_delay backoff k @ [Invoked]))"
proof (intro conjI impI allI)
  assume both: "(\<forall>i \<le> nat max_retries. \<exists>e. outcome_at func i s = Inl e \<and> allowed e)
          \<and> (\<forall>i < nat max_retries. time_sleep (delay_at initial_delay backoff i) = None)"
  then have fails: "\<forall>i \<le> nat max_retries. \<exists>e. outcome_at func i s = Inl e \<and> allowed e"
    and slept: "\<forall>i < nat max_retries. time_sleep (delay_at initial_delay backoff i) = None"
    by blast+
  from retry_loop_all_fail [OF assms fails slept, of swallow]
  obtain e where e: "outcome_at func (nat max_retries) s = Inl e"
    "retry_loop time_sleep func max_retries initial_delay backoff allowed swallow s =
       (if swallow then Inr None else Inl e, world_after func (nat max_retries + 1) s,
        retried initial_delay backoff (nat max_retries) @ [Invoked])"
    by blast
  have count: "int (invocations (retried initial_delay backoff (nat max_retries) @ [Invoked]))
                 = max_retries + 1"
    using assms by (simp add: invocations_retried)
  have slept_for: "sleeps (retried initial_delay backoff (nat max_retries) @ [Invoked])
                 = map (delay_at initial_delay backoff) [0..<nat max_retries]"
    by (simp add: sleeps_append sleeps_retried)
  from e count slept_for
  show "\<exists>e trace. outcome_at func (nat max_retries) s = Inl e
             \<and> retry_loop time_sleep func max_retries initial_delay backoff allowed swallow s =
                 (if swallow then Inr None else Inl e,
                  world_after func (nat max_retries + 1) s, trace)
             \<and> int (invocations trace) = max_retries + 1
             \<and> sleeps trace = map (delay_at initial_delay backoff) [0..<nat max_retries]
             \<and> trace = retried initial_delay backoff (nat max_retries) @ [Invoked]"
    by blast
next
  fix k e
  assume h: "(\<forall>i<k. \<exists>e'. outcome_at func i s = Inl e' \<and> allowed e')
                 \<and> (\<forall>i<k. time_sleep (delay_at initial_delay backoff i) = None)
                 \<and> int k \<le> max_retries \<and> outcome_at func k s = Inl e \<and> \<not> allowed e"
  then have "retry_loop time_sleep func max_retries initial_delay backoff allowed swallow s =
           (Inl e, world_after func (k + 1) s, retried initial_delay backoff k @ [Invoked])"
    by (intro retry_loop_not_allowed) auto
  then show "\<exists>trace. retry_loop time_sleep func max_retries initial_delay backoff allowed swallow s =
                         (Inl e, world_after func (k + 1) s, trace)
                \<and> invocations trace = k + 1
                \<and> trace = retried initial_delay backoff k @ [Invoked]"
    by (simp add: invocations_retried)
qed

theorem retry_loop_exhaustion_witness:
  "(0::int) \<le> 2
   \<and> retry_loop sleep_nonneg always_fails 2 1 (3/2) (\<lambda>e. True) False 0 =
       (Inl (Exn PlainException (py ''timeout'')), 3,
        [Invoked, Slept 1, Invoked, Slept (3/2), Invoked])
   \<and> retry_loop sleep_nonneg always_fails 2 1 (3/2) (\<lambda>e. True) True 0 =
       (Inr None, 3, [Invoked, Slept 1, Invoked, Slept (3/2), Invoked])
   \<and> retry_loop sleep_nonneg always_fails 2 1 (3/2) (\<lambda>e. cls e = ValueError) False 0 =
       (Inl (Exn PlainException (py ''timeout'')), 1, [Invoked])"
proof -
  have h: "(0::int) \<le> 2" by simp
  have tr: "retried (1::real) (3/2) 2 @ [Invoked] = [Invoked, Slept 1, Invoked, Slept (3/2), Invoked]"
    by (simp add: retried_def delay_at_def upt_rec)
  have sl: "\<forall>i < nat 2. sleep_nonneg (delay_at 1 (3/2) i) = None"
    by (simp add: sleep_nonneg_def delay_at_def less_Suc_eq numeral_2_eq_2)
  have a: "retry_loop sleep_nonneg always_fails 2 1 (3/2) (\<lambda>e. True) False 0 =
       (Inl (Exn PlainException (py ''timeout'')), 3,
        [Invoked, Slept 1, Invoked, Slept (3/2), Invoked])"
    using retry_loop_exhaustion [OF h, of always_fails 0 "\<lambda>e. True" sleep_nonneg "1::real" "3/2::real" False] sl
    by (auto simp: always_fails_outcome always_fails_world tr)
  have b: "retry_loop sleep_nonneg always_fails 2 1 (3/2) (\<lambda>e. True) True 0 =
       (Inr None, 3, [Invoked, Slept 1, Invoked, Slept (3/2), Invoked])"
    using retry_loop_exhaustion [OF h, of always_fails 0 "\<lambda>e. True" sleep_nonneg "1::real" "3/2::real" True] sl
    by (auto simp: always_fails_outcome always_fails_world tr)
  have "\<exists>trace. retry_loop sleep_nonneg always_fails 2 1 (3/2) (\<lambda>e. cls e = ValueError) False 0 =
                         (Inl (Exn PlainException (py ''timeout'')), world_after always_fails (0 + 1) 0, trace)
                \<and> invocations trace = 0 + 1
                \<and> trace = retried (1::real) (3/2) 0 @ [Invoked]"
    using retry_loop_exhaustion [OF h, of always_fails 0 "\<lambda>e. cls e = ValueError" sleep_nonneg "1::real" "3/2::real" False]
    by (simp add: always_fails_outcome)
  then have c: "retry_loop sleep_nonneg always_fails 2 1 (3/2) (\<lambda>e. cls e = ValueError) False 0 =
       (Inl (Exn PlainException (py ''timeout'')), 1, [Invoked])"
    by (auto simp: always_fails_world retried_def)
  from h a b c show ?thesis by blast
qed

section \<open>Properties of the text normalizer\<close>

lemma py_split_Nil: "py_split [] = []"
  by (subst py_split.simps) simp

lemma py_split_space: "py_isspace c \<Longrightarrow> py_split (c # s) = py_split s"
  by (subst py_split.simps, subst (2) py_split.simps) simp

lemma py_split_word:
  "\<not> py_isspace c \<Longrightarrow>
     py_split (c # s) = (c # takeWhile (\<lambda>x. \<not> py_isspace x) s)
                          # py_split (dropWhile (\<lambda>x. \<not> py_isspace x) s)"
  by (subst py_split.simps) simp

lemma py_split_unfold_Nil: "dropWhile py_isspace s = [] \<Longrightarrow> py_split s = []"
  by (subst py_split.simps) (simp only: list.simps)

lemma py_split_unfold_Cons:
  "dropWhile py_isspace s = c # cs \<Longrightarrow>
     py_split s = takeWhile (\<lambda>x. \<not> py_isspace x) (c # cs)
                    # py_split (dropWhile (\<lambda>x. \<not> py_isspace x) (c # cs))"
  by (subst py_split.simps) (simp only: list.simps)

text \<open>The words \<open>split\<close> gives are not empty, hold no whitespace, and come from the string.\<close>

lemma py_split_words:
  "w \<in> set (py_split s) \<Longrightarrow> w \<noteq> [] \<and> (\<forall>c \<in> set w. \<not> py_isspace c) \<and> set w \<subseteq> set s"
proof (induction s arbitrary: w rule: py_split.induct)
  case (1 s)
  show ?case
  proof (cases "dropWhile py_isspace s")
    case Nil
    have "py_split s = []"
      using Nil by (rule py_split_unfold_Nil)
    then show ?thesis using "1.prems" by simp
  next
    case (Cons c cs)
    let ?w = "takeWhile (\<lambda>x. \<not> py_isspace x) (c # cs)"
    let ?r = "dropWhile (\<lambda>x. \<not> py_isspace x) (c # cs)"
    have split: "py_split s = ?w # py_split ?r"
      using Cons by (rule py_split_unfold_Cons)
    have c: "\<not> py_isspace c"
      using Cons unfolding dropWhile_eq_Cons_conv by blast
    have sub: "set (c # cs) \<subseteq> set s"
    proof
      fix x assume "x \<in> set (c # cs)"
      then have "x \<in> set (dropWhile py_isspace s)"
        by (simp only: Cons)
      then show "x \<in> set s"
        by (rule set_dropWhileD)
    qed
    have w_ne: "?w \<noteq> []"
      using c by simp
    have w_ns: "\<forall>x \<in> set ?w. \<not> py_isspace x"
      using set_takeWhileD [of _ "\<lambda>x. \<not> py_isspace x" "c # cs"] by blast
    have w_sub: "set ?w \<subseteq> set s"
      using set_takeWhileD [of _ "\<lambda>x. \<not> py_isspace x" "c # cs"] sub by blast
    have r_sub: "set ?r \<subseteq> set s"
      using set_dropWhileD [of _ "\<lambda>x. \<not> py_isspace x" "c # cs"] sub by blast
    from "1.prems" have "w = ?w \<or> w \<in> set (py_split ?r)"
      unfolding split by (simp only: set_ConsD list.set insert_iff)
    then show ?thesis
    proof
      assume eq: "w = ?w"
      show ?thesis
        unfolding eq using w_ne w_ns w_sub by (intro conjI)
    next
      assume "w \<in> set (py_split ?r)"
      then have "w \<noteq> [] \<and> (\<forall>c \<in> set w. \<not> py_isspace c) \<and> set w \<subseteq> set ?r"
        by (rule "1.IH" [OF Cons])
      then show ?thesis using r_sub by blast
    qed
  qed
qed

text \<open>A word followed by nothing or by whitespace is the first word \<open>split\<close> finds.\<close>

lemma py_split_append:
  assumes "w \<noteq> []" and "\<forall>c \<in> set w. \<not> py_isspace c"
    and "rest = [] \<or> py_isspace (hd rest)"
  shows "py_split (w @ rest) = w # py_split rest"
proof -
  obtain a w' where w: "w = a # w'"
    using assms(1) by (cases w) auto
  have a: "\<not> py_isspace a"
    using assms(2) w by simp
  have tw: "takeWhile (\<lambda>x. \<not> py_isspace x) rest = []"
    using assms(3) by (cases rest) auto
  have dw: "dropWhile (\<lambda>x. \<not> py_isspace x) rest = rest"
    using assms(3) by (cases rest) auto
  have t: "takeWhile (\<lambda>x. \<not> py_isspace x) (w @ rest) = w"
    using assms(2) tw by (simp add: takeWhile_append2)
  have d: "dropWhile (\<lambda>x. \<not> py_isspace x) (w @ rest) = rest"
    using assms(2) dw by (simp add: dropWhile_append2)
  have "dropWhile py_isspace (w @ rest) = a # (w' @ rest)"
    using a w by simp
  then have "py_split (w @ rest) =
      takeWhile (\<lambda>x. \<not> py_isspace x) (a # (w' @ rest))
        # py_split (dropWhile (\<lambda>x. \<not> py_isspace x) (a # (w' @ rest)))"
    by (rule py_split_unfold_Cons)
  moreover have "a # (w' @ rest) = w @ rest"
    using w by simp
  ultimately show ?thesis
    by (simp only: t d)
qed

lemma py_isspace_32: "py_isspace 32"
  by (simp add: py_isspace_def)

lemma py_split_join:
  "(\<forall>w \<in> set ws. w \<noteq> [] \<and> (\<forall>c \<in> set w. \<not> py_isspace c))
     \<Longrightarrow> py_split (py_join [32] ws) = ws"
proof (induction "[32::nat]" ws rule: py_join.induct)
  case 1
  then show ?case by (simp add: py_split_Nil)
next
  case (2 w)
  then have "py_split (w @ []) = w # py_split []"
    by (intro py_split_append) simp_all
  then show ?case by (simp add: py_split_Nil)
next
  case (3 w v ws)
  have "py_split (w @ ([32] @ py_join [32] (v # ws))) = w # py_split ([32] @ py_join [32] (v # ws))"
    using "3.prems" by (intro py_split_append) (simp_all add: py_isspace_32)
  moreover have "py_split ([32] @ py_join [32] (v # ws)) = py_split (py_join [32] (v # ws))"
    by (simp add: py_split_space py_isspace_32)
  moreover have "py_split (py_join [32] (v # ws)) = v # ws"
    using "3.prems" by (intro "3.hyps") simp
  ultimately show ?case by simp
qed

text \<open>What the joined words are made of, and how they begin and end.\<close>

lemma py_join_set: "set (py_join sep ws) \<subseteq> set sep \<union> \<Union> (set ` set ws)"
  by (induction sep ws rule: py_join.induct) auto

lemma py_join_Nil_iff:
  "(\<forall>w \<in> set ws. w \<noteq> []) \<Longrightarrow> (py_join sep ws = []) = (ws = [])"
  by (induction sep ws rule: py_join.induct) auto

lemma py_join_hd:
  "ws \<noteq> [] \<Longrightarrow> (\<forall>w \<in> set ws. w \<noteq> []) \<Longrightarrow> hd (py_join sep ws) = hd (hd ws)"
  by (induction sep ws rule: py_join.induct) auto

lemma py_join_last:
  "ws \<noteq> [] \<Longrightarrow> (\<forall>w \<in> set ws. w \<noteq> []) \<Longrightarrow> last (py_join sep ws) = last (last ws)"
proof (induction sep ws rule: py_join.induct)
  case (3 sep w v ws)
  have "py_join sep (v # ws) \<noteq> []"
    using "3.prems" py_join_Nil_iff [of "v # ws" sep] by simp
  then show ?case using 3 by simp
qed simp_all

lemma dropWhile_hd: "xs \<noteq> [] \<Longrightarrow> \<not> P (hd xs) \<Longrightarrow> dropWhile P xs = xs"
  by (cases xs) simp_all

lemma py_strip_id:
  assumes "s = [] \<or> (\<not> py_isspace (hd s) \<and> \<not> py_isspace (last s))"
  shows "py_strip s = s"
proof (cases s)
  case Nil
  then show ?thesis by (simp add: py_strip_def)
next
  case (Cons c cs)
  then have h: "\<not> py_isspace (hd s)" and l: "\<not> py_isspace (last s)"
    using assms by auto
  have "dropWhile py_isspace s = s"
    using h Cons by (intro dropWhile_hd) simp_all
  moreover have "dropWhile py_isspace (rev s) = rev s"
  proof (rule dropWhile_hd)
    show "rev s \<noteq> []" using Cons by simp
    have "s \<noteq> []" using Cons by simp
    then have "hd (rev s) = last s" by (simp only: hd_rev)
    then show "\<not> py_isspace (hd (rev s))" using l by simp
  qed
  ultimately show ?thesis by (simp add: py_strip_def)
qed

lemma py_strip_join:
  assumes "\<forall>w \<in> set ws. w \<noteq> [] \<and> (\<forall>c \<in> set w. \<not> py_isspace c)"
  shows "py_strip (py_join [32] ws) = py_join [32] ws"
proof (cases "ws = []")
  case True
  then show ?thesis by (simp add: py_strip_def)
next
  case False
  have ne: "\<forall>w \<in> set ws. w \<noteq> []"
    using assms by blast
  have "hd ws \<in> set ws" and "last ws \<in> set ws"
    using False by simp_all
  then have "\<not> py_isspace (hd (hd ws))" and "\<not> py_isspace (last (last ws))"
    using assms by (metis hd_in_set, metis last_in_set)
  then have "\<not> py_isspace (hd (py_join [32] ws)) \<and> \<not> py_isspace (last (py_join [32] ws))"
    using False ne by (simp add: py_join_hd py_join_last)
  then show ?thesis
    by (intro py_strip_id) simp
qed

text \<open>A text without a newline has no run of three, and the loop leaves it as it is.\<close>

lemma py_contains_newlines:
  "py_contains [10, 10, 10] t \<Longrightarrow> 10 \<in> set t"
  by (induction t) (auto simp: py_startswith_def)

lemma collapse_newlines_id:
  "10 \<notin> set t \<Longrightarrow> collapse_newlines t = t"
  using py_contains_newlines [of t] by (subst collapse_newlines.simps) auto

lemma py_isspace_10: "py_isspace 10"
  by (simp add: py_isspace_def)

lemma joined_no_newline:
  "10 \<notin> set (py_join [32] (py_split s))"
proof
  assume "10 \<in> set (py_join [32] (py_split s))"
  then have "10 \<in> set [32::nat] \<union> \<Union> (set ` set (py_split s))"
    using py_join_set [of "[32]" "py_split s"] by blast
  then obtain w where "w \<in> set (py_split s)" and "10 \<in> set w"
    by auto
  then show False
    using py_split_words [of w s] py_isspace_10 by blast
qed

text \<open>
  The result of \<open>clean_ocr_text\<close> in one line: the words of the filtered text, joined by
  single spaces, when they make ten characters or more. The loop over the newlines and
  the final \<open>strip\<close> change nothing.
\<close>

lemma clean_ocr_text_eq:
  "clean_ocr_text (Some raw) =
     (if raw = [] then None
      else if length (py_join [32] (py_split (filter keep_char raw))) \<ge> 10
      then Some (py_join [32] (py_split (filter keep_char raw))) else None)"
proof -
  let ?t = "py_join [32] (py_split (filter keep_char raw))"
  have k: "(\<lambda>char. char \<ge> 32 \<or> char = 10 \<or> char = 9 \<or> char = 13) = keep_char"
    by (simp add: keep_char_def fun_eq_iff)
  have c: "collapse_newlines ?t = ?t"
    by (rule collapse_newlines_id) (rule joined_no_newline)
  have s: "py_strip ?t = ?t"
    by (rule py_strip_join) (use py_split_words in blast)
  show ?thesis
    unfolding clean_ocr_text_def k Let_def option.case c s OCR_TEXT_MIN_LENGTH_def
    by simp
qed

lemma joined_fixed:
  assumes "t = py_join [32] (py_split (filter keep_char raw))"
  shows "py_join [32] (py_split (filter keep_char t)) = t"
proof -
  let ?ws = "py_split (filter keep_char raw)"
  have words: "\<forall>w \<in> set ?ws. w \<noteq> [] \<and> (\<forall>c \<in> set w. \<not> py_isspace c)"
    using py_split_words by blast
  have "\<forall>c \<in> set t. keep_char c"
  proof
    fix c assume "c \<in> set t"
    then have "c \<in> set [32::nat] \<union> \<Union> (set ` set ?ws)"
      using py_join_set [of "[32]" ?ws] assms by blast
    then consider "c = 32" | w where "w \<in> set ?ws" "c \<in> set w"
      by auto
    then show "keep_char c"
    proof cases
      case 1
      then show ?thesis by (simp add: keep_char_def)
    next
      case 2
      then have "c \<in> set (filter keep_char raw)"
        using py_split_words [of w "filter keep_char raw"] by blast
      then show ?thesis by simp
    qed
  qed
  then have "filter keep_char t = t"
    by (simp add: filter_id_conv)
  moreover have "py_split t = ?ws"
    unfolding assms using words by (rule py_split_join)
  ultimately show ?thesis
    using assms by simp
qed

text \<open>
  C9. The normalizer is idempotent: applied to its own result, it gives that result
  again. Its argument and its result are a string or \<open>None\<close>, and \<open>None\<close> is mapped to
  \<open>None\<close>.
\<close>

theorem clean_ocr_text_idempotent:
  "clean_ocr_text (clean_ocr_text x) = clean_ocr_text x"
proof (cases "clean_ocr_text x")
  case None
  then show ?thesis by (simp add: clean_ocr_text_def)
next
  case (Some t)
  then obtain raw where x: "x = Some raw"
    by (cases x) (simp_all add: clean_ocr_text_def)
  from Some have t: "t = py_join [32] (py_split (filter keep_char raw))" and len: "length t \<ge> 10"
    unfolding x clean_ocr_text_eq by (auto split: if_splits)
  have "t \<noteq> []"
    using len by auto
  moreover have "py_join [32] (py_split (filter keep_char t)) = t"
    using t by (rule joined_fixed)
  ultimately have "clean_ocr_text (Some t) = Some t"
    using len by (simp add: clean_ocr_text_eq)
  then show ?thesis
    using Some by simp
qed

lemma clean_sample:
  "clean_ocr_text (Some (py ''  Hello \<newline>  wide   world  '')) = Some (py ''Hello wide world'')"
  by (simp add: clean_ocr_text_eq py_def keep_char_def py_split_Nil py_split_space
        py_split_word py_isspace_def)

theorem clean_ocr_text_idempotent_witness:
  "clean_ocr_text (Some (py ''  Hello \<newline>  wide   world  '')) = Some (py ''Hello wide world'')
   \<and> clean_ocr_text (Some (py ''Hello wide world'')) = Some (py ''Hello wide world'')
   \<and> clean_ocr_text (clean_ocr_text None) = None"
proof -
  have a: "clean_ocr_text (Some (py ''  Hello \<newline>  wide   world  '')) = Some (py ''Hello wide world'')"
    by (rule clean_sample)
  have b: "clean_ocr_text (Some (py ''Hello wide world'')) = Some (py ''Hello wide world'')"
    using clean_ocr_text_idempotent [of "Some (py ''  Hello \<newline>  wide   world  '')"]
    by (simp only: a)
  have c: "clean_ocr_text (clean_ocr_text None) = None"
    using clean_ocr_text_idempotent [of None] by (simp add: clean_ocr_text_def)
  from a b c show ?thesis by blast
qed

text \<open>
  C3. The normalizer removes the control characters other than newline, tab and
  carriage return, puts one space for each run of whitespace, and trims. It does not
  keep a paragraph break: the step that puts one space for each run of whitespace
  takes every newline away, so that no result holds a newline, and a text of two
  paragraphs separated by a blank line comes out as one line.
\<close>

theorem clean_ocr_text_no_newline:
  "(\<forall>t. clean_ocr_text raw_text = Some t \<longrightarrow> 10 \<notin> set t)
   \<and> clean_ocr_text (Some (py ''First paragraph.\<newline>\<newline>Second paragraph.''))
       = Some (py ''First paragraph. Second paragraph.'')"
proof
  show "\<forall>t. clean_ocr_text raw_text = Some t \<longrightarrow> 10 \<notin> set t"
  proof (intro allI impI)
    fix t assume r: "clean_ocr_text raw_text = Some t"
    then obtain raw where x: "raw_text = Some raw"
      by (cases raw_text) (simp_all add: clean_ocr_text_def)
    from r have "t = py_join [32] (py_split (filter keep_char raw))"
      unfolding x clean_ocr_text_eq by (auto split: if_splits)
    then show "10 \<notin> set t"
      using joined_no_newline by simp
  qed
next
  show "clean_ocr_text (Some (py ''First paragraph.\<newline>\<newline>Second paragraph.''))
       = Some (py ''First paragraph. Second paragraph.'')"
    by (simp add: clean_ocr_text_eq py_def keep_char_def py_split_Nil py_split_space
        py_split_word py_isspace_def)
qed

theorem clean_ocr_text_no_newline_witness:
  "clean_ocr_text (Some (py ''Line one of text\<newline>line two''))
       = Some (py ''Line one of text line two'')
   \<and> 10 \<notin> set (py ''Line one of text line two'')"
proof -
  have a: "clean_ocr_text (Some (py ''Line one of text\<newline>line two''))
       = Some (py ''Line one of text line two'')"
    by (simp add: clean_ocr_text_eq py_def keep_char_def py_split_Nil py_split_space
        py_split_word py_isspace_def)
  have "10 \<notin> set (py ''Line one of text line two'')"
    using clean_ocr_text_no_newline [of "Some (py ''Line one of text\<newline>line two'')"] a
    by blast
  with a show ?thesis by blast
qed

section \<open>Properties of the OCR dispatcher\<close>


lemma backend_extract_text_sync_returns:
  "\<exists>text. backend_extract_text_sync client content_bytes mime_type = Inr text"
  by (simp add: backend_extract_text_sync_def split: sum.splits)




section \<open>Properties of the chunking loop\<close>

lemma contiguous_snoc:
  "contiguous a rs m \<Longrightarrow> m < e \<Longrightarrow> contiguous a (rs @ [(m, e, k)]) e"
  by (induction a rs m rule: contiguous.induct) auto

lemma contiguous_covering:
  "contiguous a rs b \<Longrightarrow> a \<le> b \<and> (\<forall>p. covering p rs = (if a \<le> p \<and> p < b then 1 else 0))"
proof (induction a rs b rule: contiguous.induct)
  case (1 a b)
  then show ?case by (simp add: covering_def)
next
  case (2 a s e k rs b)
  then have s: "s = a" and lt: "s < e" and rest: "contiguous e rs b"
    by simp_all
  from "2.IH" [OF rest] have le: "e \<le> b"
    and cov: "\<And>p. covering p rs = (if e \<le> p \<and> p < b then 1 else 0)"
    by simp_all
  have head: "\<And>p. covering p ((s, e, k) # rs) = (if s \<le> p \<and> p < e then 1 else 0) + covering p rs"
    by (simp add: covering_def)
  show ?case
    unfolding head cov using s lt le by auto
qed

text \<open>
  A round of the loop either halves \<open>chunk_pages\<close> and leaves \<open>page_idx\<close> where it is, or
  moves \<open>page_idx\<close> to \<open>end_page\<close> and records the range; \<open>chunk_pages\<close> stays at 1 or more.
\<close>

lemma chunk_step_cases:
  assumes "1 \<le> chunk_pages st"
  shows "(page_idx (chunk_step client write_chunk total_pages start st) = page_idx st
            \<and> emitted (chunk_step client write_chunk total_pages start st) = emitted st
            \<and> 1 \<le> chunk_pages (chunk_step client write_chunk total_pages start st)
            \<and> chunk_pages (chunk_step client write_chunk total_pages start st) < chunk_pages st)
       \<or> (page_idx (chunk_step client write_chunk total_pages start st)
              = min (page_idx st + chunk_pages st) total_pages
            \<and> (\<exists>k. emitted (chunk_step client write_chunk total_pages start st)
                   = emitted st @ [(page_idx st, min (page_idx st + chunk_pages st) total_pages, k)])
            \<and> 1 \<le> chunk_pages (chunk_step client write_chunk total_pages start st))"
  using assms
  by (auto simp: chunk_step_def Let_def CHUNK_MIN_PAGES_def split: sum.splits option.splits)

lemma backend_chunk_step_cases:
  assumes "1 \<le> chunk_pages st"
    and "backend_chunk_step client write_chunk total_pages start st = Inr st'"
  shows "(page_idx st' = page_idx st \<and> emitted st' = emitted st
            \<and> 1 \<le> chunk_pages st' \<and> chunk_pages st' < chunk_pages st)
       \<or> (page_idx st' = min (page_idx st + chunk_pages st) total_pages
            \<and> (\<exists>k. emitted st' = emitted st @ [(page_idx st, min (page_idx st + chunk_pages st) total_pages, k)])
            \<and> 1 \<le> chunk_pages st')"
  using assms
  by (auto simp: backend_chunk_step_def Let_def CHUNK_MIN_PAGES_def
      split: sum.splits option.splits if_splits)

lemma backend_chunk_step_returns:
  assumes "\<forall>a b. \<exists>buf. write_chunk a b = Inr buf"
  shows "\<exists>st'. backend_chunk_step client write_chunk total_pages start st = Inr st'"
proof -
  obtain buf where buf: "write_chunk (page_idx st) (min (page_idx st + chunk_pages st) total_pages) = Inr buf"
    using assms by blast
  obtain ocr_text where ocr_text: "backend_extract_text_sync client buf (py ''application/pdf'') = Inr ocr_text"
    using backend_extract_text_sync_returns by blast
  show ?thesis
    by (simp add: backend_chunk_step_def Let_def buf ocr_text)
qed

text \<open>What a round of either loop leaves true, and what it makes smaller.\<close>

lemma round_invariant:
  assumes cp: "1 \<le> chunk_pages st" and lt: "page_idx st < total_pages"
    and chain: "contiguous 0 (emitted st) (page_idx st)"
    and round: "(page_idx st' = page_idx st \<and> emitted st' = emitted st
                  \<and> 1 \<le> chunk_pages st' \<and> chunk_pages st' < chunk_pages st)
       \<or> (page_idx st' = min (page_idx st + chunk_pages st) total_pages
            \<and> (\<exists>k. emitted st' = emitted st @ [(page_idx st, min (page_idx st + chunk_pages st) total_pages, k)])
            \<and> 1 \<le> chunk_pages st')"
  shows "1 \<le> chunk_pages st' \<and> page_idx st' \<le> total_pages
         \<and> contiguous 0 (emitted st') (page_idx st')
         \<and> (st', st) \<in> measures [\<lambda>s. nat (total_pages - page_idx s), \<lambda>s. nat (chunk_pages s)]"
  using round
proof
  assume "page_idx st' = page_idx st \<and> emitted st' = emitted st
            \<and> 1 \<le> chunk_pages st' \<and> chunk_pages st' < chunk_pages st"
  then show ?thesis
    using lt chain by simp
next
  let ?e = "min (page_idx st + chunk_pages st) total_pages"
  assume adv: "page_idx st' = ?e
            \<and> (\<exists>k. emitted st' = emitted st @ [(page_idx st, ?e, k)])
            \<and> 1 \<le> chunk_pages st'"
  then obtain k where k: "emitted st' = emitted st @ [(page_idx st, ?e, k)]"
    by blast
  have more: "page_idx st < ?e"
    using cp lt by simp
  have "contiguous 0 (emitted st @ [(page_idx st, ?e, k)]) ?e"
    using chain more by (rule contiguous_snoc)
  then have "contiguous 0 (emitted st') (page_idx st')"
    using adv k by simp
  moreover have "nat (total_pages - page_idx st') < nat (total_pages - page_idx st)"
    using adv more lt by simp
  ultimately show ?thesis
    using adv by simp
qed

lemma chunk_loop_returns:
  assumes "1 \<le> chunk_pages st" and "page_idx st \<le> total_pages"
    and "contiguous 0 (emitted st) (page_idx st)"
  shows "\<exists>st'. chunk_loop client write_chunk total_pages start st = Some st'
           \<and> contiguous 0 (emitted st') total_pages"
  using assms
proof (induction st rule: wf_induct_rule
    [OF wf_measures [of "[\<lambda>s. nat (total_pages - page_idx s), \<lambda>s. nat (chunk_pages s)]"]])
  case (1 st)
  show ?case
  proof (cases "page_idx st < total_pages")
    case False
    then have "page_idx st = total_pages"
      using "1.prems"(2) by simp
    moreover have "chunk_loop client write_chunk total_pages start st = Some st"
      using False by (subst chunk_loop.simps) simp
    ultimately show ?thesis
      using "1.prems"(3) by simp
  next
    case True
    let ?st = "chunk_step client write_chunk total_pages start st"
    have inv: "1 \<le> chunk_pages ?st \<and> page_idx ?st \<le> total_pages
         \<and> contiguous 0 (emitted ?st) (page_idx ?st)
         \<and> (?st, st) \<in> measures [\<lambda>s. nat (total_pages - page_idx s), \<lambda>s. nat (chunk_pages s)]"
      using "1.prems"(1) True "1.prems"(3)
      by (rule round_invariant) (rule chunk_step_cases [OF "1.prems"(1)])
    then have "\<exists>st'. chunk_loop client write_chunk total_pages start ?st = Some st'
           \<and> contiguous 0 (emitted st') total_pages"
      by (intro "1.IH") simp_all
    moreover have "chunk_loop client write_chunk total_pages start st
                     = chunk_loop client write_chunk total_pages start ?st"
      using True by (subst chunk_loop.simps) simp
    ultimately show ?thesis by simp
  qed
qed

lemma backend_chunk_loop_returns:
  assumes "1 \<le> chunk_pages st" and "page_idx st \<le> total_pages"
    and "contiguous 0 (emitted st) (page_idx st)"
  shows "\<exists>r. backend_chunk_loop client write_chunk total_pages start st = Some r
           \<and> (\<forall>st'. r = Inr st' \<longrightarrow> contiguous 0 (emitted st') total_pages)
           \<and> ((\<forall>a b. \<exists>buf. write_chunk a b = Inr buf) \<longrightarrow> (\<exists>st'. r = Inr st'))"
  using assms
proof (induction st rule: wf_induct_rule
    [OF wf_measures [of "[\<lambda>s. nat (total_pages - page_idx s), \<lambda>s. nat (chunk_pages s)]"]])
  case (1 st)
  show ?case
  proof (cases "page_idx st < total_pages")
    case False
    then have "page_idx st = total_pages"
      using "1.prems"(2) by simp
    moreover have "backend_chunk_loop client write_chunk total_pages start st = Some (Inr st)"
      using False by (subst backend_chunk_loop.simps) simp
    ultimately show ?thesis
      using "1.prems"(3) by simp
  next
    case True
    show ?thesis
    proof (cases "backend_chunk_step client write_chunk total_pages start st")
      case (Inl e)
      have "backend_chunk_loop client write_chunk total_pages start st = Some (Inl e)"
        using True Inl by (subst backend_chunk_loop.simps) simp
      moreover have "\<not> (\<forall>a b. \<exists>buf. write_chunk a b = Inr buf)"
        using backend_chunk_step_returns [of write_chunk client total_pages start st] Inl by auto
      ultimately show ?thesis by simp
    next
      case (Inr st1)
      have inv: "1 \<le> chunk_pages st1 \<and> page_idx st1 \<le> total_pages
         \<and> contiguous 0 (emitted st1) (page_idx st1)
         \<and> (st1, st) \<in> measures [\<lambda>s. nat (total_pages - page_idx s), \<lambda>s. nat (chunk_pages s)]"
        using "1.prems"(1) True "1.prems"(3)
        by (rule round_invariant) (rule backend_chunk_step_cases [OF "1.prems"(1) Inr])
      then have "\<exists>r. backend_chunk_loop client write_chunk total_pages start st1 = Some r
           \<and> (\<forall>st'. r = Inr st' \<longrightarrow> contiguous 0 (emitted st') total_pages)
           \<and> ((\<forall>a b. \<exists>buf. write_chunk a b = Inr buf) \<longrightarrow> (\<exists>st'. r = Inr st'))"
        by (intro "1.IH") simp_all
      moreover have "backend_chunk_loop client write_chunk total_pages start st
                     = backend_chunk_loop client write_chunk total_pages start st1"
        using True Inr by (subst backend_chunk_loop.simps) simp
      ultimately show ?thesis by simp
    qed
  qed
qed

lemma initial_chunk_state_invariant:
  "1 \<le> chunk_pages (initial_chunk_state start)
   \<and> page_idx (initial_chunk_state start) = 0
   \<and> emitted (initial_chunk_state start) = []"
  by (simp add: initial_chunk_state_def CHUNK_MIN_PAGES_def)

text \<open>
  C1. For a PDF of \<open>total_pages\<close> pages and any \<open>start_chunk_pages\<close>, in particular for
  \<open>total_pages \<ge> 1\<close> and \<open>start_chunk_pages \<ge> 1\<close>, the loop of \<open>src/migration\<close> returns,
  whatever the PDF library and the OCR service do, and the ranges of pages it has
  emitted (sent to the OCR, skipped as over the limit, or dropped after an exception)
  follow one another from 0 to \<open>total_pages\<close> without a gap or an overlap: each page from
  0 to \<open>total_pages - 1\<close> is in exactly one range, and no other page is in a range. The
  loop of \<open>src/backend/scripts\<close> ends too, by returning or by an exception of the PDF
  library, which it does not catch; when it returns its ranges have the same property,
  and it returns when the library does not raise.
\<close>

theorem chunk_ranges_partition:
  assumes "0 \<le> total_pages"
  shows "(\<exists>st. chunk_loop client write_chunk total_pages start_chunk_pages
                 (initial_chunk_state start_chunk_pages) = Some st
            \<and> contiguous 0 (emitted st) total_pages
            \<and> (\<forall>p. covering p (emitted st) = (if 0 \<le> p \<and> p < total_pages then 1 else 0)))
       \<and> (\<exists>r. backend_chunk_loop client write_chunk total_pages start_chunk_pages
                 (initial_chunk_state start_chunk_pages) = Some r
            \<and> (\<forall>st. r = Inr st \<longrightarrow>
                   contiguous 0 (emitted st) total_pages
                   \<and> (\<forall>p. covering p (emitted st) = (if 0 \<le> p \<and> p < total_pages then 1 else 0)))
            \<and> ((\<forall>a b. \<exists>buf. write_chunk a b = Inr buf) \<longrightarrow> (\<exists>st. r = Inr st)))"
proof
  let ?init = "initial_chunk_state start_chunk_pages"
  have cp: "1 \<le> chunk_pages ?init" and idx: "page_idx ?init \<le> total_pages"
    and chain: "contiguous 0 (emitted ?init) (page_idx ?init)"
    using assms by (simp_all add: initial_chunk_state_invariant)
  obtain st where st: "chunk_loop client write_chunk total_pages start_chunk_pages ?init = Some st"
    "contiguous 0 (emitted st) total_pages"
    using chunk_loop_returns [OF cp idx chain] by blast
  then show "\<exists>st. chunk_loop client write_chunk total_pages start_chunk_pages ?init = Some st
            \<and> contiguous 0 (emitted st) total_pages
            \<and> (\<forall>p. covering p (emitted st) = (if 0 \<le> p \<and> p < total_pages then 1 else 0))"
    using contiguous_covering [of 0 "emitted st" total_pages] by blast
  obtain r where r: "backend_chunk_loop client write_chunk total_pages start_chunk_pages ?init = Some r"
    "\<forall>st'. r = Inr st' \<longrightarrow> contiguous 0 (emitted st') total_pages"
    "(\<forall>a b. \<exists>buf. write_chunk a b = Inr buf) \<longrightarrow> (\<exists>st'. r = Inr st')"
    using backend_chunk_loop_returns [OF cp idx chain] by blast
  have "\<forall>st. r = Inr st \<longrightarrow>
                   contiguous 0 (emitted st) total_pages
                   \<and> (\<forall>p. covering p (emitted st) = (if 0 \<le> p \<and> p < total_pages then 1 else 0))"
    using r(2) contiguous_covering by blast
  with r(1) r(3)
  show "\<exists>r. backend_chunk_loop client write_chunk total_pages start_chunk_pages ?init = Some r
            \<and> (\<forall>st. r = Inr st \<longrightarrow>
                   contiguous 0 (emitted st) total_pages
                   \<and> (\<forall>p. covering p (emitted st) = (if 0 \<le> p \<and> p < total_pages then 1 else 0)))
            \<and> ((\<forall>a b. \<exists>buf. write_chunk a b = Inr buf) \<longrightarrow> (\<exists>st. r = Inr st))"
    by blast
qed

lemma sample_chunk_run:
  "chunk_loop None sample_write 7 5 (initial_chunk_state 5) =
     Some \<lparr> gathered_text = [], page_idx = 7, chunk_pages = 5, total_chunks = 8,
            successful_chunks = 0,
            emitted = [(0, 2, Processed), (2, 3, Skipped), (3, 4, Processed),
                       (4, 6, Processed), (6, 7, Processed)] \<rparr>"
  by (simp add: chunk_loop.simps chunk_step_def initial_chunk_state_def sample_write_def
        extract_text_sync_def extract_text_from_pdf_bytes_def py_startswith_def py_def
        SYNC_LIMIT_def CHUNK_MIN_PAGES_def Let_def)

lemma backend_sample_chunk_run:
  "backend_chunk_loop None sample_write 7 5 (initial_chunk_state 5) =
     Some (Inr \<lparr> gathered_text = [], page_idx = 7, chunk_pages = 5, total_chunks = 0,
                 successful_chunks = 0,
                 emitted = [(0, 2, Processed), (2, 3, Skipped), (3, 4, Processed),
                            (4, 6, Processed), (6, 7, Processed)] \<rparr>)"
  by (simp add: backend_chunk_loop.simps backend_chunk_step_def initial_chunk_state_def
        sample_write_def backend_extract_text_sync_def backend_extract_text_from_pdf_bytes_def
        py_startswith_def py_def SYNC_LIMIT_def CHUNK_MIN_PAGES_def Let_def)

theorem chunk_ranges_partition_witness:
  "(0::int) \<le> 7
   \<and> chunk_loop None sample_write 7 5 (initial_chunk_state 5) =
       Some \<lparr> gathered_text = [], page_idx = 7, chunk_pages = 5, total_chunks = 8,
              successful_chunks = 0,
              emitted = [(0, 2, Processed), (2, 3, Skipped), (3, 4, Processed),
                         (4, 6, Processed), (6, 7, Processed)] \<rparr>
   \<and> contiguous 0 [(0, 2, Processed), (2, 3, Skipped), (3, 4, Processed),
                     (4, 6, Processed), (6, 7, Processed)] 7
   \<and> covering 2 [(0, 2, Processed), (2, 3, Skipped), (3, 4, Processed),
                   (4, 6, Processed), (6, 7, Processed)] = 1
   \<and> covering 7 [(0, 2, Processed), (2, 3, Skipped), (3, 4, Processed),
                   (4, 6, Processed), (6, 7, Processed)] = 0
   \<and> backend_chunk_loop None sample_write 7 5 (initial_chunk_state 5) =
       Some (Inr \<lparr> gathered_text = [], page_idx = 7, chunk_pages = 5, total_chunks = 0,
                   successful_chunks = 0,
                   emitted = [(0, 2, Processed), (2, 3, Skipped), (3, 4, Processed),
                              (4, 6, Processed), (6, 7, Processed)] \<rparr>)"
proof -
  have h: "(0::int) \<le> 7" by simp
  let ?rs = "[(0, 2, Processed), (2, 3, Skipped), (3, 4, Processed),
              (4, 6, Processed), (6, 7, Processed)] :: (int \<times> int \<times> range_kind) list"
  from chunk_ranges_partition [OF h, of None sample_write 5]
  obtain st where st: "chunk_loop None sample_write 7 5 (initial_chunk_state 5) = Some st"
    "contiguous 0 (emitted st) 7"
    "\<forall>p. covering p (emitted st) = (if 0 \<le> p \<and> p < 7 then 1 else 0)"
    by blast
  from st(1) have e: "emitted st = ?rs"
    by (auto simp: sample_chunk_run)
  have c: "contiguous 0 ?rs 7"
    using st(2) by (simp only: e)
  have "covering 2 ?rs = (if (0::int) \<le> 2 \<and> (2::int) < 7 then 1 else 0)"
    using st(3) unfolding e by blast
  then have c2: "covering 2 ?rs = 1"
    by simp
  have "covering 7 ?rs = (if (0::int) \<le> 7 \<and> (7::int) < 7 then 1 else 0)"
    using st(3) unfolding e by blast
  then have c7: "covering 7 ?rs = 0"
    by simp
  from h sample_chunk_run c c2 c7 backend_sample_chunk_run show ?thesis
    by blast
qed

end
